theory Spec2Isabelle
  imports Complex_Main "HOL-Library.Sublist" "HOL-Library.Multiset"
begin

section \<open>JavaScript strings and numbers\<close>

text \<open>
  Strings are lists of characters. The text handled here is ASCII (URLs, Markdown
  markup, English phrases), so case conversion touches the letters A-Z only.
\<close>

definition upper_chars :: string where
  "upper_chars = ''ABCDEFGHIJKLMNOPQRSTUVWXYZ''"

definition lower_chars :: string where
  "lower_chars = ''abcdefghijklmnopqrstuvwxyz''"

definition digit_chars :: string where
  "digit_chars = ''0123456789''"

definition is_upper :: "char \<Rightarrow> bool" where
  "is_upper c = (c \<in> set upper_chars)"

definition is_lower :: "char \<Rightarrow> bool" where
  "is_lower c = (c \<in> set lower_chars)"

definition is_digit :: "char \<Rightarrow> bool" where
  "is_digit c = (c \<in> set digit_chars)"

definition lower_char :: "char \<Rightarrow> char" where
  "lower_char c = (case map_of (zip upper_chars lower_chars) c of Some d \<Rightarrow> d | None \<Rightarrow> c)"

definition toLowerCase :: "string \<Rightarrow> string" where
  "toLowerCase s = map lower_char s"

text \<open>The regular-expression class \<open>\s\<close> and the line terminators that \<open>.\<close> excludes.\<close>

definition is_space :: "char \<Rightarrow> bool" where
  "is_space c = (c \<in> {CHR 0x09, CHR 0x0A, CHR 0x0B, CHR 0x0C, CHR 0x0D, CHR 0x20, CHR 0xA0})"

definition is_line_terminator :: "char \<Rightarrow> bool" where
  "is_line_terminator c = (c = CHR 0x0A \<or> c = CHR 0x0D)"

definition trimStart :: "string \<Rightarrow> string" where
  "trimStart s = dropWhile is_space s"

definition trimEnd :: "string \<Rightarrow> string" where
  "trimEnd s = rev (dropWhile is_space (rev s))"

definition trim :: "string \<Rightarrow> string" where
  "trim s = trimEnd (trimStart s)"

text \<open>\<open>s.startsWith(p)\<close> is \<open>prefix p s\<close>; \<open>s.includes(p)\<close> looks at every suffix.\<close>

fun str_includes :: "string \<Rightarrow> string \<Rightarrow> bool" where
  "str_includes [] p = (p = [])"
| "str_includes (c # cs) p = (prefix p (c # cs) \<or> str_includes cs p)"

text \<open>
  A JavaScript number as far as the crawler's depth setting needs it: not-a-number, the
  two infinities, or a finite value.
\<close>

datatype jsnum = NaN | NegInf | Fin rat | PosInf

section \<open>Structure analyzer: the two scores\<close>

record MDFSections =
  hasTitle :: bool
  hasUrl :: bool
  hasContent :: bool
  hasMetadata :: bool
  hasFrontmatter :: bool

record ContentMetrics =
  wordCount :: nat
  paragraphCount :: nat
  headingCount :: nat
  listCount :: nat
  codeBlockCount :: nat
  linkCount :: nat

datatype severity = Error | Warning | Info

record ValidationWarning =
  severity :: severity
  message :: string
  section_name :: "string option"

datatype grade = Excellent | Good | Fair | Poor

record HealthScore =
  score :: int
  grade :: grade
  color :: string
  description :: string

record AIReadability =
  ai_score :: int
  issues :: "string list"
  strengths :: "string list"

definition validateStructure ::
  "bool \<Rightarrow> MDFSections \<Rightarrow> ContentMetrics \<Rightarrow> ValidationWarning list" where
  \<comment> \<open>The first argument says whether some paragraph of the text has more than 200 words.\<close>
  "validateStructure hasLongParagraph sections metrics =
     (if \<not> hasTitle sections
      then [\<lparr>severity = Error, message = ''Missing main title (H1 heading)'',
             section_name = Some ''Title''\<rparr>] else [])
   @ (if \<not> hasContent sections \<and> paragraphCount metrics < 3
      then [\<lparr>severity = Error, message = ''Insufficient content - AI needs more context'',
             section_name = Some ''Content''\<rparr>] else [])
   @ (if \<not> hasUrl sections \<and> \<not> hasFrontmatter sections
      then [\<lparr>severity = Warning, message = ''Missing source URL - AI can't verify origin'',
             section_name = Some ''URL''\<rparr>] else [])
   @ (if \<not> hasMetadata sections
      then [\<lparr>severity = Info,
             message = ''Consider adding metadata (author, date, language) for better AI context'',
             section_name = Some ''Metadata''\<rparr>] else [])
   @ (if wordCount metrics < 50
      then [\<lparr>severity = Warning,
             message = ''Low word count - may not provide enough information for AI'',
             section_name = Some ''Content''\<rparr>] else [])
   @ (if headingCount metrics = 0
      then [\<lparr>severity = Warning,
             message = ''No headings found - structure helps AI understand hierarchy'',
             section_name = Some ''Structure''\<rparr>] else [])
   @ (if hasLongParagraph
      then [\<lparr>severity = Info,
             message = ''Some paragraphs are very long - consider breaking them up for better AI parsing'',
             section_name = Some ''Content''\<rparr>] else [])"

definition section_points :: "MDFSections \<Rightarrow> int" where
  "section_points sections =
     (if hasTitle sections then 10 else 0) + (if hasFrontmatter sections then 10 else 0)
   + (if hasUrl sections then 10 else 0) + (if hasContent sections then 5 else 0)
   + (if hasMetadata sections then 5 else 0)"

definition richness_points :: "ContentMetrics \<Rightarrow> int" where
  "richness_points metrics =
     (if wordCount metrics > 100 then 10 else 0) + (if wordCount metrics > 300 then 5 else 0)
   + (if headingCount metrics > 0 then 10 else 0) + (if headingCount metrics > 3 then 5 else 0)
   + (if paragraphCount metrics > 2 then 5 else 0) + (if listCount metrics > 0 then 5 else 0)"

definition penalty_points :: "ValidationWarning list \<Rightarrow> int" where
  "penalty_points warnings =
     (let errors = int (length (filter (\<lambda>w. severity w = Error) warnings));
          warningCount = int (length (filter (\<lambda>w. severity w = Warning) warnings))
      in max 0 (20 - errors * 10 - warningCount * 3))"

definition calculateHealthScore ::
  "MDFSections \<Rightarrow> ContentMetrics \<Rightarrow> ValidationWarning list \<Rightarrow> HealthScore" where
  "calculateHealthScore sections metrics warnings =
     (let score = section_points sections + richness_points metrics + penalty_points warnings
      in if score \<ge> 85 then
           \<lparr>score = score, grade = Excellent, color = ''emerald'',
            description = ''Perfect for AI consumption - well-structured with rich content''\<rparr>
         else if score \<ge> 70 then
           \<lparr>score = score, grade = Good, color = ''blue'',
            description = ''Good structure - AI can easily extract information''\<rparr>
         else if score \<ge> 50 then
           \<lparr>score = score, grade = Fair, color = ''amber'',
            description = ''Acceptable but could be improved for better AI understanding''\<rparr>
         else
           \<lparr>score = score, grade = Poor, color = ''red'',
            description = ''Needs improvement - AI may struggle to extract meaningful information''\<rparr>)"

text \<open>
  \<open>/\[.+?\]\(.+?\)/\<close>: an opening bracket, one or more characters of a line, \<open>](\<close>, one
  or more characters of a line, a closing parenthesis.
\<close>

definition dot_run :: "string \<Rightarrow> nat" where
  "dot_run s = length (takeWhile (\<lambda>c. \<not> is_line_terminator c) s)"

definition link_tail :: "string \<Rightarrow> bool" where
  "link_tail s = list_ex (\<lambda>n. prefix '')'' (drop n s)) [1..<Suc (dot_run s)]"

definition link_here :: "string \<Rightarrow> bool" where
  "link_here s = (prefix ''['' s \<and>
     list_ex (\<lambda>n. prefix '']('' (drop n (tl s)) \<and> link_tail (drop (n + 2) (tl s)))
       [1..<Suc (dot_run (tl s))])"

definition has_markdown_link :: "string \<Rightarrow> bool" where
  "has_markdown_link s = list_ex link_here (suffixes s)"

text \<open>\<open>/skip to content|accept cookies|gdpr|subscribe now/i\<close>\<close>

definition has_ui_noise :: "string \<Rightarrow> bool" where
  "has_ui_noise markdown =
     list_ex (str_includes (toLowerCase markdown))
       [''skip to content'', ''accept cookies'', ''gdpr'', ''subscribe now'']"

definition analyzeAIReadability ::
  "string \<Rightarrow> MDFSections \<Rightarrow> ContentMetrics \<Rightarrow> AIReadability" where
  "analyzeAIReadability markdown sections metrics =
     (let s1 = (if hasFrontmatter sections then 100 else 100 - 10);
          s2 = (if headingCount metrics \<ge> 3 then s1
                else if headingCount metrics = 0 then s1 - 15 else s1);
          s3 = (if wordCount metrics \<ge> 100 then s2 else s2 - 10);
          s4 = (if has_ui_noise markdown then s3 - 5 else s3)
      in \<lparr>ai_score = max 0 (min 100 s4),
          issues =
            (if hasFrontmatter sections then []
             else [''Missing frontmatter - AI prefers structured metadata''])
          @ (if headingCount metrics \<ge> 3 then []
             else if headingCount metrics = 0
             then [''No headings - AI can't understand content hierarchy''] else [])
          @ (if wordCount metrics \<ge> 100 then []
             else [''Content too short - AI needs more context''])
          @ (if has_ui_noise markdown then [''Contains UI noise that should be removed'']
             else []),
          strengths =
            (if hasFrontmatter sections then [''Has frontmatter with structured metadata'']
             else [])
          @ (if headingCount metrics \<ge> 3
             then [''Good heading structure for hierarchical understanding''] else [])
          @ (if listCount metrics > 0 then [''Contains lists for structured information'']
             else [])
          @ (if wordCount metrics \<ge> 100 then [''Sufficient content length for context'']
             else [])
          @ (if str_includes markdown ''```'' then [''Properly formatted code blocks''] else [])
          @ (if has_markdown_link markdown then [''Contains properly formatted links'']
             else [])\<rparr>)"

section \<open>Crawler: link extraction and the depth limit\<close>

text \<open>
  \<open>extractLinks\<close> reads the \<open>href\<close> attribute of every \<open>a[href]\<close> element, in document
  order; the argument is that list of attribute values.
\<close>

definition keep_link :: "string \<Rightarrow> bool" where
  "keep_link href =
     (if href = [] \<or> prefix ''#'' href then False
      else if prefix ''mailto:'' href \<or> prefix ''tel:'' href then False
      else if prefix ''javascript:'' (toLowerCase href) then False
      else True)"

definition extractLinks :: "string list \<Rightarrow> string list" where
  "extractLinks anchors = filter keep_link (map trim anchors)"

definition MAX_DEPTH :: rat where
  "MAX_DEPTH = 4"

definition MAX_PAGES :: nat where
  "MAX_PAGES = 120"

text \<open>
  \<open>clamp\<close> is called with the constant bounds 1 and \<open>MAX_DEPTH\<close>, so its bounds are finite
  and so is its result; \<open>Math.max\<close> and \<open>Math.min\<close> treat the infinities as the extremes.
\<close>

fun clamp :: "jsnum \<Rightarrow> rat \<Rightarrow> rat \<Rightarrow> rat" where
  "clamp NaN lo hi = lo"
| "clamp (Fin v) lo hi = min (max v lo) hi"
| "clamp PosInf lo hi = hi"
| "clamp NegInf lo hi = min lo hi"

text \<open>
  \<open>Number(payload?.maxDepth ?? 3)\<close>: the field is \<open>None\<close> when it is \<open>null\<close> or
  \<open>undefined\<close>, and otherwise carries the number its value converts to.
\<close>

definition depthSetting :: "jsnum option \<Rightarrow> jsnum" where
  "depthSetting maxDepth = (case maxDepth of None \<Rightarrow> Fin 3 | Some v \<Rightarrow> v)"

definition depthLimit :: "jsnum option \<Rightarrow> rat" where
  "depthLimit maxDepth = clamp (depthSetting maxDepth) 1 MAX_DEPTH"

section \<open>Theorems\<close>

lemma section_points_bounds: "0 \<le> section_points s \<and> section_points s \<le> 40"
  by (simp add: section_points_def)

lemma richness_points_bounds: "0 \<le> richness_points m \<and> richness_points m \<le> 40"
  by (simp add: richness_points_def)

lemma penalty_points_bounds: "0 \<le> penalty_points ws \<and> penalty_points ws \<le> 20"
  by (simp add: penalty_points_def Let_def)

lemma score_calculateHealthScore:
  "score (calculateHealthScore s m ws) = section_points s + richness_points m + penalty_points ws"
  by (simp add: calculateHealthScore_def Let_def)

text \<open>
  C9. Both scores lie between 0 and 100, whatever sections, metrics and warnings the
  analyzer derived from its input text and whatever that text is; the empty text is one
  instance.
\<close>

theorem score_bounds:
  "0 \<le> score (calculateHealthScore sections metrics warnings)
   \<and> score (calculateHealthScore sections metrics warnings) \<le> 100
   \<and> 0 \<le> ai_score (analyzeAIReadability markdown sections metrics)
   \<and> ai_score (analyzeAIReadability markdown sections metrics) \<le> 100"
proof -
  have a: "0 \<le> section_points sections \<and> section_points sections \<le> 40"
    by (rule section_points_bounds)
  have b: "0 \<le> richness_points metrics \<and> richness_points metrics \<le> 40"
    by (rule richness_points_bounds)
  have c: "0 \<le> penalty_points warnings \<and> penalty_points warnings \<le> 20"
    by (rule penalty_points_bounds)
  have d: "0 \<le> ai_score (analyzeAIReadability markdown sections metrics)
         \<and> ai_score (analyzeAIReadability markdown sections metrics) \<le> 100"
    by (simp add: analyzeAIReadability_def Let_def)
  from a b c d show ?thesis
    by (simp add: score_calculateHealthScore)
qed

text \<open>
  C8. Link extraction drops \<open>javascript:\<close> links whatever their case, but compares
  \<open>mailto:\<close> and \<open>tel:\<close> case-sensitively: an href written \<open>MAILTO:\<close> or \<open>Tel:\<close>
  is returned as a link.
\<close>

theorem extractLinks_keeps_uppercase_mailto:
  "extractLinks [''MAILTO:team@example.com'', ''Tel:+15550100'', ''JavaScript:void(0)'',
                 ''mailto:a@b.c'', '' #top'', ''/about'']
   = [''MAILTO:team@example.com'', ''Tel:+15550100'', ''/about'']"
  by (simp add: extractLinks_def keep_link_def trim_def trimStart_def trimEnd_def is_space_def
      toLowerCase_def lower_char_def upper_chars_def lower_chars_def)


section \<open>URLs\<close>

text \<open>
  The \<open>URL\<close> class belongs to the runtime, not to the repository. The code is modelled over
  any implementation of the part of the class it uses: the two constructors (which throw,
  here \<open>None\<close>), the serializer, the getters and the four setters.
\<close>

record 'u url_api =
  new_URL :: "string \<Rightarrow> 'u option"
  new_URL_base :: "string \<Rightarrow> string \<Rightarrow> 'u option"
  href :: "'u \<Rightarrow> string"
  protocol :: "'u \<Rightarrow> string"
  hostname :: "'u \<Rightarrow> string"
  pathname :: "'u \<Rightarrow> string"
  search :: "'u \<Rightarrow> string"
  hash :: "'u \<Rightarrow> string"
  set_protocol :: "string \<Rightarrow> 'u \<Rightarrow> 'u"
  set_pathname :: "string \<Rightarrow> 'u \<Rightarrow> 'u"
  set_search :: "string \<Rightarrow> 'u \<Rightarrow> 'u"
  set_hash :: "string \<Rightarrow> 'u \<Rightarrow> 'u"

text \<open>\<open>/^https?:\/\//i.test(input)\<close>\<close>

definition hasProtocol :: "string \<Rightarrow> bool" where
  "hasProtocol input =
     (prefix ''http://'' (toLowerCase input) \<or> prefix ''https://'' (toLowerCase input))"

text \<open>\<open>pathname.replace(/\/+$/, "")\<close>\<close>

definition strip_trailing_slashes :: "string \<Rightarrow> string" where
  "strip_trailing_slashes p = rev (dropWhile (\<lambda>c. c = CHR ''/'') (rev p))"

text \<open>
  Crawl-mode \<open>normalizeUrl\<close> (the crawler's route): \<open>strip_target\<close> is its part after the
  \<open>try\<close> block, the assignments to the parsed URL.
\<close>

definition strip_target :: "'u url_api \<Rightarrow> 'u \<Rightarrow> 'u" where
  "strip_target P target =
     (let t1 = set_protocol P ''https:'' target;
          t2 = set_hash P [] t1;
          t3 = set_search P [] t2
      in if pathname P t3 \<noteq> ''/''
         then (let t5 = set_pathname P (strip_trailing_slashes (pathname P t3)) t3
               in if pathname P t5 = [] then set_pathname P ''/'' t5 else t5)
         else t3)"

definition normalizeUrl :: "'u url_api \<Rightarrow> string \<Rightarrow> string option \<Rightarrow> string + string" where
  "normalizeUrl P input base =
     (case (if hasProtocol input then new_URL P input
            else case base of
                   Some b \<Rightarrow> if b \<noteq> [] then new_URL_base P input b
                             else new_URL P (''https://'' @ input)
                 | None \<Rightarrow> new_URL P (''https://'' @ input)) of
        None \<Rightarrow> Inl (''Unable to normalize URL: '' @ input)
      | Some target \<Rightarrow>
          Inr (href P (strip_target P target)))"

text \<open>
  Extraction-mode \<open>normalizeUrl\<close> (the extractor library): it keeps the query and drops
  the fragment.
\<close>

definition is_http :: "string \<Rightarrow> bool" where
  "is_http p \<longleftrightarrow> p = ''http:'' \<or> p = ''https:''"

record ExtractionError =
  err_message :: string
  err_status :: nat

definition normalizeUrl_extractor :: "'u url_api \<Rightarrow> string \<Rightarrow> ExtractionError + string" where
  "normalizeUrl_extractor P input =
     (case new_URL P (if hasProtocol input then input else ''https://'' @ input) of
        None \<Rightarrow> Inl \<lparr>err_message = ''Unable to parse the provided URL. Use a valid http(s) address.'',
                       err_status = 400\<rparr>
      | Some url \<Rightarrow>
          if \<not> is_http (protocol P url)
          then Inl \<lparr>err_message = ''Only HTTP(S) URLs are supported.'', err_status = 400\<rparr>
          else Inr (href P (set_hash P [] url)))"

text \<open>
  What normalisation needs from the runtime's URL class, for the set \<open>V\<close> of URL objects
  it can produce: parsing yields such objects and parses a serialized object back to itself;
  an input that starts with \<open>http://\<close> or \<open>https://\<close> gets that protocol, and such an object
  serializes with it; setters keep URL objects; setting a component to the value it has
  changes nothing; and the path setter stores a path that is the current one without its
  trailing slashes.
\<close>

definition parser_laws :: "'u url_api \<Rightarrow> 'u set \<Rightarrow> bool" where
  "parser_laws P V \<longleftrightarrow>
     (\<forall>s u. new_URL P s = Some u \<longrightarrow> u \<in> V)
   \<and> (\<forall>u\<in>V. new_URL P (href P u) = Some u)
   \<and> (\<forall>s u. new_URL P s = Some u \<longrightarrow> hasProtocol s \<longrightarrow> is_http (protocol P u))
   \<and> (\<forall>u\<in>V. is_http (protocol P u) \<longrightarrow> hasProtocol (href P u))"

definition setters_keep_urls :: "'u url_api \<Rightarrow> 'u set \<Rightarrow> bool" where
  "setters_keep_urls P V \<longleftrightarrow>
     (\<forall>u\<in>V. set_protocol P ''https:'' u \<in> V \<and> set_hash P [] u \<in> V \<and> set_search P [] u \<in> V
            \<and> (\<forall>p. set_pathname P p u \<in> V))"

definition protocol_setter_laws :: "'u url_api \<Rightarrow> 'u set \<Rightarrow> bool" where
  "protocol_setter_laws P V \<longleftrightarrow>
     (\<forall>u\<in>V. is_http (protocol P u) \<longrightarrow> protocol P (set_protocol P ''https:'' u) = ''https:'')
   \<and> (\<forall>u\<in>V. protocol P u = ''https:'' \<longrightarrow> set_protocol P ''https:'' u = u)"

definition hash_setter_laws :: "'u url_api \<Rightarrow> 'u set \<Rightarrow> bool" where
  "hash_setter_laws P V \<longleftrightarrow>
     (\<forall>u\<in>V. hash P (set_hash P [] u) = [] \<and> protocol P (set_hash P [] u) = protocol P u)
   \<and> (\<forall>u\<in>V. hash P u = [] \<longrightarrow> set_hash P [] u = u)"

definition search_setter_laws :: "'u url_api \<Rightarrow> 'u set \<Rightarrow> bool" where
  "search_setter_laws P V \<longleftrightarrow>
     (\<forall>u\<in>V. search P (set_search P [] u) = [] \<and> protocol P (set_search P [] u) = protocol P u
            \<and> hash P (set_search P [] u) = hash P u)
   \<and> (\<forall>u\<in>V. search P u = [] \<longrightarrow> set_search P [] u = u)"

definition pathname_setter_laws :: "'u url_api \<Rightarrow> 'u set \<Rightarrow> bool" where
  "pathname_setter_laws P V \<longleftrightarrow>
     (\<forall>u\<in>V. \<forall>p. protocol P (set_pathname P p u) = protocol P u
            \<and> hash P (set_pathname P p u) = hash P u
            \<and> search P (set_pathname P p u) = search P u)
   \<and> (\<forall>u\<in>V. set_pathname P (pathname P u) u = u)
   \<and> (\<forall>u\<in>V. protocol P u = ''https:'' \<longrightarrow> strip_trailing_slashes (pathname P u) \<noteq> []
            \<longrightarrow> pathname P (set_pathname P (strip_trailing_slashes (pathname P u)) u)
                = strip_trailing_slashes (pathname P u))
   \<and> (\<forall>u\<in>V. protocol P u = ''https:'' \<longrightarrow> pathname P (set_pathname P ''/'' u) = ''/'')
   \<and> (\<forall>u\<in>V. protocol P u = ''https:'' \<longrightarrow> pathname P (set_pathname P [] u) \<in> {[], ''/''})"

definition url_laws :: "'u url_api \<Rightarrow> 'u set \<Rightarrow> bool" where
  "url_laws P V \<longleftrightarrow>
     parser_laws P V \<and> setters_keep_urls P V \<and> protocol_setter_laws P V
     \<and> hash_setter_laws P V \<and> search_setter_laws P V \<and> pathname_setter_laws P V"

lemma strip_trailing_slashes_idem:
  "strip_trailing_slashes (strip_trailing_slashes p) = strip_trailing_slashes p"
proof -
  have "dropWhile (\<lambda>c. c = CHR ''/'') (dropWhile (\<lambda>c. c = CHR ''/'') (rev p))
        = dropWhile (\<lambda>c. c = CHR ''/'') (rev p)"
    by (rule dropWhile_idem)
  then show ?thesis by (simp add: strip_trailing_slashes_def)
qed

lemma strip_trailing_slashes_not_root:
  "strip_trailing_slashes p \<noteq> ''/''"
proof
  assume a: "strip_trailing_slashes p = ''/''"
  then have "dropWhile (\<lambda>c. c = CHR ''/'') (rev p) = ''/''"
    by (simp add: strip_trailing_slashes_def rev_swap)
  moreover have "dropWhile (\<lambda>c. c = CHR ''/'') (rev p) = [] \<or> hd (dropWhile (\<lambda>c. c = CHR ''/'') (rev p)) \<noteq> CHR ''/''"
    using hd_dropWhile[of "\<lambda>c. c = CHR ''/''" "rev p"] by blast
  ultimately show False by simp
qed



lemma parser_lawsD:
  assumes "url_laws P V"
  shows law_parse: "new_URL P s = Some u \<Longrightarrow> u \<in> V"
    and law_roundtrip: "u \<in> V \<Longrightarrow> new_URL P (href P u) = Some u"
    and law_parse_protocol: "new_URL P s = Some u \<Longrightarrow> hasProtocol s \<Longrightarrow> is_http (protocol P u)"
    and law_href_protocol: "u \<in> V \<Longrightarrow> is_http (protocol P u) \<Longrightarrow> hasProtocol (href P u)"
proof -
  from assms have p: "parser_laws P V" by (simp add: url_laws_def)
  show "new_URL P s = Some u \<Longrightarrow> u \<in> V" using p unfolding parser_laws_def by blast
  show "u \<in> V \<Longrightarrow> new_URL P (href P u) = Some u" using p unfolding parser_laws_def by blast
  show "new_URL P s = Some u \<Longrightarrow> hasProtocol s \<Longrightarrow> is_http (protocol P u)"
    using p unfolding parser_laws_def by blast
  show "u \<in> V \<Longrightarrow> is_http (protocol P u) \<Longrightarrow> hasProtocol (href P u)"
    using p unfolding parser_laws_def by blast
qed

lemma law_setters_valid:
  assumes "url_laws P V" and "u \<in> V"
  shows "set_protocol P ''https:'' u \<in> V \<and> set_hash P [] u \<in> V
         \<and> set_search P [] u \<in> V \<and> set_pathname P p u \<in> V"
proof -
  from assms(1) have p: "setters_keep_urls P V" by (simp add: url_laws_def)
  show ?thesis using p assms(2) unfolding setters_keep_urls_def by blast
qed

lemma protocol_setter_lawsD:
  assumes "url_laws P V" and "u \<in> V"
  shows law_set_protocol:
      "is_http (protocol P u) \<Longrightarrow> protocol P (set_protocol P ''https:'' u) = ''https:''"
    and law_set_protocol_same: "protocol P u = ''https:'' \<Longrightarrow> set_protocol P ''https:'' u = u"
proof -
  from assms(1) have p: "protocol_setter_laws P V" by (simp add: url_laws_def)
  show "is_http (protocol P u) \<Longrightarrow> protocol P (set_protocol P ''https:'' u) = ''https:''"
    using p assms(2) unfolding protocol_setter_laws_def by blast
  show "protocol P u = ''https:'' \<Longrightarrow> set_protocol P ''https:'' u = u"
    using p assms(2) unfolding protocol_setter_laws_def by blast
qed

lemma hash_setter_lawsD:
  assumes "url_laws P V" and "u \<in> V"
  shows law_set_hash:
      "hash P (set_hash P [] u) = [] \<and> protocol P (set_hash P [] u) = protocol P u"
    and law_set_hash_same: "hash P u = [] \<Longrightarrow> set_hash P [] u = u"
proof -
  from assms(1) have p: "hash_setter_laws P V" by (simp add: url_laws_def)
  show "hash P (set_hash P [] u) = [] \<and> protocol P (set_hash P [] u) = protocol P u"
    using p assms(2) unfolding hash_setter_laws_def by blast
  show "hash P u = [] \<Longrightarrow> set_hash P [] u = u"
    using p assms(2) unfolding hash_setter_laws_def by blast
qed

lemma search_setter_lawsD:
  assumes "url_laws P V" and "u \<in> V"
  shows law_set_search:
      "search P (set_search P [] u) = [] \<and> protocol P (set_search P [] u) = protocol P u
       \<and> hash P (set_search P [] u) = hash P u"
    and law_set_search_same: "search P u = [] \<Longrightarrow> set_search P [] u = u"
proof -
  from assms(1) have p: "search_setter_laws P V" by (simp add: url_laws_def)
  show "search P (set_search P [] u) = [] \<and> protocol P (set_search P [] u) = protocol P u
       \<and> hash P (set_search P [] u) = hash P u"
    using p assms(2) unfolding search_setter_laws_def by blast
  show "search P u = [] \<Longrightarrow> set_search P [] u = u"
    using p assms(2) unfolding search_setter_laws_def by blast
qed

lemma pathname_setter_lawsD:
  assumes "url_laws P V" and "u \<in> V"
  shows law_set_pathname_frame:
      "protocol P (set_pathname P p u) = protocol P u
       \<and> hash P (set_pathname P p u) = hash P u
       \<and> search P (set_pathname P p u) = search P u"
    and law_set_pathname_same: "set_pathname P (pathname P u) u = u"
    and law_set_pathname_stripped:
      "protocol P u = ''https:'' \<Longrightarrow> strip_trailing_slashes (pathname P u) \<noteq> []
         \<Longrightarrow> pathname P (set_pathname P (strip_trailing_slashes (pathname P u)) u)
            = strip_trailing_slashes (pathname P u)"
    and law_set_pathname_root:
      "protocol P u = ''https:'' \<Longrightarrow> pathname P (set_pathname P ''/'' u) = ''/''"
    and law_set_pathname_empty:
      "protocol P u = ''https:'' \<Longrightarrow> pathname P (set_pathname P [] u) \<in> {[], ''/''}"
proof -
  from assms(1) have p: "pathname_setter_laws P V" by (simp add: url_laws_def)
  show "protocol P (set_pathname P p u) = protocol P u
       \<and> hash P (set_pathname P p u) = hash P u
       \<and> search P (set_pathname P p u) = search P u"
    using p assms(2) unfolding pathname_setter_laws_def by blast
  show "set_pathname P (pathname P u) u = u"
    using p assms(2) unfolding pathname_setter_laws_def by blast
  show "protocol P u = ''https:'' \<Longrightarrow> strip_trailing_slashes (pathname P u) \<noteq> []
         \<Longrightarrow> pathname P (set_pathname P (strip_trailing_slashes (pathname P u)) u)
            = strip_trailing_slashes (pathname P u)"
    using p assms(2) unfolding pathname_setter_laws_def by blast
  show "protocol P u = ''https:'' \<Longrightarrow> pathname P (set_pathname P ''/'' u) = ''/''"
    using p assms(2) unfolding pathname_setter_laws_def by blast
  show "protocol P u = ''https:'' \<Longrightarrow> pathname P (set_pathname P [] u) \<in> {[], ''/''}"
    using p assms(2) unfolding pathname_setter_laws_def by blast
qed

definition normal_target :: "'u url_api \<Rightarrow> 'u \<Rightarrow> bool" where
  "normal_target P w \<longleftrightarrow>
     protocol P w = ''https:'' \<and> hash P w = [] \<and> search P w = []
     \<and> (pathname P w = ''/''
        \<or> (pathname P w \<noteq> [] \<and> strip_trailing_slashes (pathname P w) = pathname P w))"

lemma strip_target_normal:
  assumes L: "url_laws P V" and u: "u \<in> V" and pr: "is_http (protocol P u)"
  shows "strip_target P u \<in> V \<and> normal_target P (strip_target P u)"
proof -
  define t1 where "t1 = set_protocol P ''https:'' u"
  define t2 where "t2 = set_hash P [] t1"
  define t3 where "t3 = set_search P [] t2"
  define q where "q = strip_trailing_slashes (pathname P t3)"
  define t5 where "t5 = set_pathname P q t3"
  define t6 where "t6 = set_pathname P ''/'' t5"
  have v1: "t1 \<in> V" using law_setters_valid[OF L u] by (simp add: t1_def)
  have v2: "t2 \<in> V" using law_setters_valid[OF L v1] by (simp add: t2_def)
  have v3: "t3 \<in> V" using law_setters_valid[OF L v2] by (simp add: t3_def)
  have v5: "t5 \<in> V" using law_setters_valid[OF L v3] by (simp add: t5_def)
  have v6: "t6 \<in> V" using law_setters_valid[OF L v5] by (simp add: t6_def)
  have t1: "protocol P t1 = ''https:''"
    using law_set_protocol[OF L u pr] by (simp add: t1_def)
  have t2: "protocol P t2 = ''https:'' \<and> hash P t2 = []"
    using law_set_hash[OF L v1] t1 by (simp add: t2_def)
  have t3: "protocol P t3 = ''https:'' \<and> hash P t3 = [] \<and> search P t3 = []"
    using law_set_search[OF L v2] t2 by (simp add: t3_def)
  have t5: "protocol P t5 = ''https:'' \<and> hash P t5 = [] \<and> search P t5 = []"
    using law_set_pathname_frame[OF L v3] t3 by (simp add: t5_def)
  have t6: "protocol P t6 = ''https:'' \<and> hash P t6 = [] \<and> search P t6 = []
            \<and> pathname P t6 = ''/''"
    using law_set_pathname_frame[OF L v5] law_set_pathname_root[OF L v5] t5
    by (simp add: t6_def)
  have st: "strip_target P u =
      (if pathname P t3 \<noteq> ''/'' then (if pathname P t5 = [] then t6 else t5) else t3)"
    by (simp add: strip_target_def Let_def t1_def t2_def t3_def t5_def t6_def q_def)
  show ?thesis
  proof (cases "pathname P t3 = ''/''")
    case True
    then show ?thesis using st t3 v3 by (simp add: normal_target_def)
  next
    case False
    show ?thesis
    proof (cases "q = []")
      case qe: True
      have r: "pathname P t5 \<in> {[], ''/''}"
        using law_set_pathname_empty[OF L v3] t3 qe by (simp add: t5_def)
      show ?thesis
      proof (cases "pathname P t5 = []")
        case True
        then show ?thesis using st False t6 v6 by (simp add: normal_target_def)
      next
        case ne: False
        then have "pathname P t5 = ''/''" using r by simp
        then show ?thesis using st False ne t5 v5 by (simp add: normal_target_def)
      qed
    next
      case qn: False
      have "pathname P t5 = q"
        using law_set_pathname_stripped[OF L v3] t3 qn by (simp add: t5_def q_def)
      moreover have "strip_trailing_slashes q = q"
        by (simp add: q_def strip_trailing_slashes_idem)
      ultimately show ?thesis using st False qn t5 v5 by (simp add: normal_target_def)
    qed
  qed
qed

lemma strip_target_fixed:
  assumes L: "url_laws P V" and w: "w \<in> V" and n: "normal_target P w"
  shows "strip_target P w = w"
proof -
  have p1: "set_protocol P ''https:'' w = w"
    using law_set_protocol_same[OF L w] n by (simp add: normal_target_def)
  have p2: "set_hash P [] w = w"
    using law_set_hash_same[OF L w] n by (simp add: normal_target_def)
  have p3: "set_search P [] w = w"
    using law_set_search_same[OF L w] n by (simp add: normal_target_def)
  have p4: "set_pathname P (pathname P w) w = w"
    by (rule law_set_pathname_same[OF L w])
  show ?thesis
  proof (cases "pathname P w = ''/''")
    case True
    then show ?thesis by (simp add: strip_target_def Let_def p1 p2 p3)
  next
    case False
    then have "pathname P w \<noteq> [] \<and> strip_trailing_slashes (pathname P w) = pathname P w"
      using n by (simp add: normal_target_def)
    then show ?thesis using False by (simp add: strip_target_def Let_def p1 p2 p3 p4)
  qed
qed

lemma hasProtocol_https_prefix: "hasProtocol (''https://'' @ s)"
  by (simp add: hasProtocol_def toLowerCase_def lower_char_def upper_chars_def lower_chars_def)

lemma hasProtocol_target:
  "hasProtocol (if hasProtocol s then s else ''https://'' @ s)"
  by (cases "hasProtocol s") (simp_all only: if_True if_False hasProtocol_https_prefix)

text \<open>
  C5. Normalisation is idempotent in both modes: when crawl-mode \<open>normalizeUrl\<close> (no base)
  succeeds on an input, normalising its result gives the same result, and likewise for the
  extraction-mode \<open>normalizeUrl\<close>, on every URL implementation that satisfies the laws above.
\<close>

theorem normalizeUrl_idempotent:
  assumes L: "url_laws P V"
  shows "(normalizeUrl P s None = Inr t \<longrightarrow> normalizeUrl P t None = Inr t)
       \<and> (normalizeUrl_extractor P s = Inr t' \<longrightarrow> normalizeUrl_extractor P t' = Inr t')"
proof (intro conjI impI)
  assume a: "normalizeUrl P s None = Inr t"
  define s' where "s' = (if hasProtocol s then s else ''https://'' @ s)"
  have hs: "hasProtocol s'" unfolding s'_def by (rule hasProtocol_target)
  from a obtain u where u: "new_URL P s' = Some u" and t: "t = href P (strip_target P u)"
    by (auto simp: normalizeUrl_def s'_def split: option.splits if_splits)
  have uV: "u \<in> V" by (rule law_parse[OF L u])
  have pr: "is_http (protocol P u)"
    by (rule law_parse_protocol[OF L u hs])
  define w where "w = strip_target P u"
  have w: "w \<in> V" and nw: "normal_target P w"
    unfolding w_def using strip_target_normal[OF L uV pr] by simp_all
  have ht: "hasProtocol t"
    using law_href_protocol[OF L w] nw t by (simp add: normal_target_def w_def is_http_def)
  have rt: "new_URL P t = Some w"
    using law_roundtrip[OF L w] t by (simp add: w_def)
  have fx: "strip_target P w = w" by (rule strip_target_fixed[OF L w nw])
  show "normalizeUrl P t None = Inr t"
    using ht rt fx t by (simp add: normalizeUrl_def w_def)
next
  assume a: "normalizeUrl_extractor P s = Inr t'"
  define s' where "s' = (if hasProtocol s then s else ''https://'' @ s)"
  have hs: "hasProtocol s'" unfolding s'_def by (rule hasProtocol_target)
  from a obtain u where u: "new_URL P s' = Some u" and pr: "is_http (protocol P u)"
    and t: "t' = href P (set_hash P [] u)"
    by (auto simp: normalizeUrl_extractor_def s'_def split: option.splits if_splits)
  have uV: "u \<in> V" by (rule law_parse[OF L u])
  define w where "w = set_hash P [] u"
  have w: "w \<in> V" using law_setters_valid[OF L uV] by (simp add: w_def)
  have pw: "is_http (protocol P w) \<and> hash P w = []"
    using law_set_hash[OF L uV] pr by (simp add: w_def)
  have ht: "hasProtocol t'"
    using law_href_protocol[OF L w] pw t by (simp add: w_def)
  have rt: "new_URL P t' = Some w"
    using law_roundtrip[OF L w] t by (simp add: w_def)
  have fx: "set_hash P [] w = w"
    using law_set_hash_same[OF L w] pw by simp
  show "normalizeUrl_extractor P t' = Inr t'"
    using ht rt fx t pw by (simp add: normalizeUrl_extractor_def w_def)
qed

subsection \<open>A URL implementation\<close>

text \<open>
  A small implementation of the interface: absolute \<open>http(s)://authority/path?query#fragment\<close>
  URLs with a lower-cased authority, and references that start with a single slash resolved
  against the base's origin. It rejects an empty authority and white space in it; it does
  not model percent-encoding, dot segments, default ports or other kinds of relative
  reference.
\<close>

record simple_url =
  s_protocol :: string
  s_host :: string
  s_path :: string
  s_search :: string
  s_hash :: string

definition ends_authority :: "char \<Rightarrow> bool" where
  "ends_authority c \<longleftrightarrow> c = CHR ''/'' \<or> c = CHR ''?'' \<or> c = CHR ''#''"

definition ends_path :: "char \<Rightarrow> bool" where
  "ends_path c \<longleftrightarrow> c = CHR ''?'' \<or> c = CHR ''#''"

definition simple_parse_rest :: "string \<Rightarrow> string \<Rightarrow> simple_url option" where
  "simple_parse_rest proto rest =
     (let auth = takeWhile (\<lambda>c. \<not> ends_authority c) rest;
          r1 = dropWhile (\<lambda>c. \<not> ends_authority c) rest;
          path = takeWhile (\<lambda>c. \<not> ends_path c) r1;
          r2 = dropWhile (\<lambda>c. \<not> ends_path c) r1;
          query = takeWhile (\<lambda>c. c \<noteq> CHR ''#'') r2;
          frag = dropWhile (\<lambda>c. c \<noteq> CHR ''#'') r2
      in if auth = [] \<or> list_ex is_space auth then None
         else Some \<lparr>s_protocol = proto, s_host = toLowerCase auth,
                    s_path = (if path = [] then ''/'' else path),
                    s_search = (if query = ''?'' then [] else query),
                    s_hash = (if frag = ''#'' then [] else frag)\<rparr>)"

definition simple_parse :: "string \<Rightarrow> simple_url option" where
  "simple_parse s =
     (if prefix ''https://'' (toLowerCase s) then simple_parse_rest ''https:'' (drop 8 s)
      else if prefix ''http://'' (toLowerCase s) then simple_parse_rest ''http:'' (drop 7 s)
      else None)"

definition simple_href :: "simple_url \<Rightarrow> string" where
  "simple_href u = s_protocol u @ ''//'' @ s_host u @ s_path u @ s_search u @ s_hash u"

definition simple_resolve :: "string \<Rightarrow> string \<Rightarrow> simple_url option" where
  "simple_resolve input base =
     (if hasProtocol input then simple_parse input
      else case simple_parse base of
             None \<Rightarrow> None
           | Some b \<Rightarrow>
               if prefix ''/'' input \<and> \<not> prefix ''//'' input
               then simple_parse (s_protocol b @ ''//'' @ s_host b @ input)
               else None)"

definition encode_path :: "string \<Rightarrow> string" where
  "encode_path p =
     concat (map (\<lambda>c. if c = CHR ''?'' then ''%3F'' else if c = CHR ''#'' then ''%23'' else [c]) p)"

definition simple_set_protocol :: "string \<Rightarrow> simple_url \<Rightarrow> simple_url" where
  "simple_set_protocol v u = (if is_http v then u\<lparr>s_protocol := v\<rparr> else u)"

definition simple_set_pathname :: "string \<Rightarrow> simple_url \<Rightarrow> simple_url" where
  "simple_set_pathname p u =
     u\<lparr>s_path := (let q = encode_path p in if prefix ''/'' q then q else CHR ''/'' # q)\<rparr>"

definition simple_set_search :: "string \<Rightarrow> simple_url \<Rightarrow> simple_url" where
  "simple_set_search v u =
     u\<lparr>s_search := (let q = filter (\<lambda>c. c \<noteq> CHR ''#'') v
                    in if q = [] \<or> q = ''?'' then []
                       else if prefix ''?'' q then q else CHR ''?'' # q)\<rparr>"

definition simple_set_hash :: "string \<Rightarrow> simple_url \<Rightarrow> simple_url" where
  "simple_set_hash v u =
     u\<lparr>s_hash := (if v = [] \<or> v = ''#'' then []
                  else if prefix ''#'' v then v else CHR ''#'' # v)\<rparr>"

definition simple_urls :: "simple_url url_api" where
  "simple_urls =
     \<lparr>new_URL = simple_parse, new_URL_base = simple_resolve, href = simple_href,
      protocol = s_protocol, hostname = (\<lambda>u. takeWhile (\<lambda>c. c \<noteq> CHR '':'') (s_host u)),
      pathname = s_path, search = s_search, hash = s_hash,
      set_protocol = simple_set_protocol, set_pathname = simple_set_pathname,
      set_search = simple_set_search, set_hash = simple_set_hash\<rparr>"

definition valid_simple :: "simple_url \<Rightarrow> bool" where
  "valid_simple u \<longleftrightarrow>
     is_http (s_protocol u)
   \<and> s_host u \<noteq> [] \<and> list_all (\<lambda>c. \<not> ends_authority c \<and> \<not> is_space c) (s_host u)
   \<and> toLowerCase (s_host u) = s_host u
   \<and> prefix ''/'' (s_path u) \<and> list_all (\<lambda>c. \<not> ends_path c) (s_path u)
   \<and> (s_search u = [] \<or> (prefix ''?'' (s_search u) \<and> s_search u \<noteq> ''?''
        \<and> list_all (\<lambda>c. c \<noteq> CHR ''#'') (s_search u)))
   \<and> (s_hash u = [] \<or> (prefix ''#'' (s_hash u) \<and> s_hash u \<noteq> ''#''))"

lemma lower_char_cases: "lower_char c = c \<or> (is_upper c \<and> is_lower (lower_char c))"
  by (simp add: lower_char_def is_upper_def is_lower_def upper_chars_def lower_chars_def)

lemma lower_char_idem: "lower_char (lower_char c) = lower_char c"
  using lower_char_cases[of c]
  by (auto simp: lower_char_def is_upper_def is_lower_def upper_chars_def lower_chars_def)


lemma toLowerCase_idem: "toLowerCase (toLowerCase s) = toLowerCase s"
  by (simp add: toLowerCase_def lower_char_idem)

lemma lower_char_keeps_class:
  "\<not> ends_authority c \<Longrightarrow> \<not> is_space c
   \<Longrightarrow> \<not> ends_authority (lower_char c) \<and> \<not> is_space (lower_char c)"
  using lower_char_cases[of c]
  by (auto simp: ends_authority_def is_space_def is_lower_def lower_chars_def)

lemma takeWhile_dropWhile_split:
  "list_all P xs \<Longrightarrow> ys = [] \<or> \<not> P (hd ys)
   \<Longrightarrow> takeWhile P (xs @ ys) = xs \<and> dropWhile P (xs @ ys) = ys"
proof (induction xs)
  case Nil
  then show ?case by (cases ys) auto
next
  case (Cons x xs)
  then show ?case by simp
qed

lemma dropWhile_hd: "dropWhile P xs = [] \<or> \<not> P (hd (dropWhile P xs))"
  using hd_dropWhile[of P xs] by blast

lemma list_all_takeWhile: "list_all P (takeWhile P xs)"
  by (induction xs) auto

lemma simple_parse_rest_href:
  assumes v: "valid_simple u"
  shows "simple_parse_rest (s_protocol u) (s_host u @ s_path u @ s_search u @ s_hash u) = Some u"
proof -
  have h1: "list_all (\<lambda>c. \<not> ends_authority c) (s_host u)"
    using v by (simp add: valid_simple_def list_all_iff)
  have h2: "s_path u @ s_search u @ s_hash u = []
            \<or> \<not> \<not> ends_authority (hd (s_path u @ s_search u @ s_hash u))"
    using v by (auto simp: valid_simple_def ends_authority_def prefix_def)
  have a: "takeWhile (\<lambda>c. \<not> ends_authority c) (s_host u @ s_path u @ s_search u @ s_hash u) = s_host u"
    and b: "dropWhile (\<lambda>c. \<not> ends_authority c) (s_host u @ s_path u @ s_search u @ s_hash u)
            = s_path u @ s_search u @ s_hash u"
    using takeWhile_dropWhile_split[OF h1 h2] by simp_all
  have p1: "list_all (\<lambda>c. \<not> ends_path c) (s_path u)"
    using v by (simp add: valid_simple_def)
  have p2: "s_search u @ s_hash u = [] \<or> \<not> \<not> ends_path (hd (s_search u @ s_hash u))"
    using v by (auto simp: valid_simple_def ends_path_def prefix_def)
  have c: "takeWhile (\<lambda>c. \<not> ends_path c) (s_path u @ s_search u @ s_hash u) = s_path u"
    and d: "dropWhile (\<lambda>c. \<not> ends_path c) (s_path u @ s_search u @ s_hash u)
            = s_search u @ s_hash u"
    using takeWhile_dropWhile_split[OF p1 p2] by simp_all
  have q1: "list_all (\<lambda>c. c \<noteq> CHR ''#'') (s_search u)"
    using v by (auto simp: valid_simple_def)
  have q2: "s_hash u = [] \<or> \<not> hd (s_hash u) \<noteq> CHR ''#''"
    using v by (auto simp: valid_simple_def prefix_def)
  have e: "takeWhile (\<lambda>c. c \<noteq> CHR ''#'') (s_search u @ s_hash u) = s_search u"
    and f: "dropWhile (\<lambda>c. c \<noteq> CHR ''#'') (s_search u @ s_hash u) = s_hash u"
    using takeWhile_dropWhile_split[OF q1 q2] by simp_all
  have g: "s_host u \<noteq> [] \<and> \<not> list_ex is_space (s_host u) \<and> toLowerCase (s_host u) = s_host u
           \<and> s_path u \<noteq> [] \<and> s_search u \<noteq> ''?'' \<and> s_hash u \<noteq> ''#''"
    using v by (auto simp: valid_simple_def list_all_iff list_ex_iff)
  show ?thesis
    by (simp add: simple_parse_rest_def Let_def a b c d e f g)
qed

lemma simple_roundtrip:
  assumes v: "valid_simple u"
  shows "simple_parse (simple_href u) = Some u"
proof -
  have "s_protocol u = ''http:'' \<or> s_protocol u = ''https:''"
    using v by (simp add: valid_simple_def is_http_def)
  then show ?thesis
  proof
    assume p: "s_protocol u = ''http:''"
    have "simple_parse (simple_href u)
          = simple_parse_rest ''http:'' (s_host u @ s_path u @ s_search u @ s_hash u)"
      by (simp add: simple_parse_def simple_href_def p toLowerCase_def lower_char_def
          upper_chars_def lower_chars_def)
    then show ?thesis using simple_parse_rest_href[OF v] p by simp
  next
    assume p: "s_protocol u = ''https:''"
    have "simple_parse (simple_href u)
          = simple_parse_rest ''https:'' (s_host u @ s_path u @ s_search u @ s_hash u)"
      by (simp add: simple_parse_def simple_href_def p toLowerCase_def lower_char_def
          upper_chars_def lower_chars_def)
    then show ?thesis using simple_parse_rest_href[OF v] p by simp
  qed
qed

lemma simple_parse_rest_valid:
  assumes "simple_parse_rest proto rest = Some u" and "is_http proto"
  shows "valid_simple u"
proof -
  define auth where "auth = takeWhile (\<lambda>c. \<not> ends_authority c) rest"
  define r1 where "r1 = dropWhile (\<lambda>c. \<not> ends_authority c) rest"
  define path where "path = takeWhile (\<lambda>c. \<not> ends_path c) r1"
  define r2 where "r2 = dropWhile (\<lambda>c. \<not> ends_path c) r1"
  define query where "query = takeWhile (\<lambda>c. c \<noteq> CHR ''#'') r2"
  define frag where "frag = dropWhile (\<lambda>c. c \<noteq> CHR ''#'') r2"
  from assms(1) have ok: "auth \<noteq> [] \<and> \<not> list_ex is_space auth"
    and u: "u = \<lparr>s_protocol = proto, s_host = toLowerCase auth,
                 s_path = (if path = [] then ''/'' else path),
                 s_search = (if query = ''?'' then [] else query),
                 s_hash = (if frag = ''#'' then [] else frag)\<rparr>"
    by (auto simp: simple_parse_rest_def Let_def auth_def r1_def path_def r2_def query_def
        frag_def split: if_splits)
  have host: "list_all (\<lambda>c. \<not> ends_authority c \<and> \<not> is_space c) (toLowerCase auth)"
  proof -
    have "list_all (\<lambda>c. \<not> ends_authority c) auth"
      unfolding auth_def by (rule list_all_takeWhile)
    then have "\<forall>c\<in>set auth. \<not> ends_authority c \<and> \<not> is_space c"
      using ok by (auto simp: list_all_iff list_ex_iff)
    then show ?thesis
      using lower_char_keeps_class by (auto simp: list_all_iff toLowerCase_def)
  qed
  have r1: "r1 = [] \<or> ends_authority (hd r1)"
    unfolding r1_def using dropWhile_hd[of "\<lambda>c. \<not> ends_authority c" rest] by simp
  have pathp: "path = [] \<or> prefix ''/'' path"
  proof (cases r1)
    case Nil
    then show ?thesis by (simp add: path_def)
  next
    case (Cons c cs)
    then have "ends_authority c" using r1 by simp
    then show ?thesis
      using Cons by (auto simp: path_def ends_authority_def ends_path_def)
  qed
  have patha: "list_all (\<lambda>c. \<not> ends_path c) path"
    unfolding path_def by (rule list_all_takeWhile)
  have r2: "r2 = [] \<or> ends_path (hd r2)"
    unfolding r2_def using dropWhile_hd[of "\<lambda>c. \<not> ends_path c" r1] by simp
  have queryp: "query = [] \<or> prefix ''?'' query"
  proof (cases r2)
    case Nil
    then show ?thesis by (simp add: query_def)
  next
    case (Cons c cs)
    then have "ends_path c" using r2 by simp
    then show ?thesis
      using Cons by (auto simp: query_def ends_path_def)
  qed
  have querya: "list_all (\<lambda>c. c \<noteq> CHR ''#'') query"
    unfolding query_def by (rule list_all_takeWhile)
  have fragp: "frag = [] \<or> prefix ''#'' frag"
  proof -
    have "frag = [] \<or> \<not> hd frag \<noteq> CHR ''#''"
      unfolding frag_def by (rule dropWhile_hd)
    then show ?thesis by (cases frag) auto
  qed
  have hne: "toLowerCase auth \<noteq> []"
    using ok by (simp add: toLowerCase_def)
  show ?thesis
    using hne host pathp patha queryp querya fragp assms(2)
    by (auto simp: valid_simple_def u toLowerCase_idem ends_path_def)
qed

lemma simple_parse_valid:
  assumes "simple_parse s = Some u"
  shows "valid_simple u \<and> is_http (s_protocol u)"
proof -
  from assms obtain proto rest where r: "simple_parse_rest proto rest = Some u"
    and p: "is_http proto"
    by (auto simp: simple_parse_def is_http_def split: if_splits)
  have "valid_simple u" by (rule simple_parse_rest_valid[OF r p])
  then show ?thesis by (simp add: valid_simple_def)
qed

lemma simple_href_hasProtocol:
  assumes "is_http (s_protocol u)"
  shows "hasProtocol (simple_href u)"
  using assms
  by (auto simp: is_http_def hasProtocol_def simple_href_def toLowerCase_def lower_char_def
      upper_chars_def lower_chars_def)


lemma encode_path_no_end: "list_all (\<lambda>c. \<not> ends_path c) (encode_path p)"
  by (induction p) (auto simp: encode_path_def ends_path_def)

lemma encode_path_id: "list_all (\<lambda>c. \<not> ends_path c) p \<Longrightarrow> encode_path p = p"
  by (induction p) (auto simp: encode_path_def ends_path_def)

lemma strip_trailing_slashes_prefix: "prefix (strip_trailing_slashes p) p"
proof -
  have "rev (takeWhile (\<lambda>c. c = CHR ''/'') (rev p) @ dropWhile (\<lambda>c. c = CHR ''/'') (rev p)) = p"
    by (simp only: takeWhile_dropWhile_id rev_rev_ident)
  then have "p = strip_trailing_slashes p @ rev (takeWhile (\<lambda>c. c = CHR ''/'') (rev p))"
    by (simp only: rev_append strip_trailing_slashes_def)
  then show ?thesis by (metis prefixI)
qed

lemma simple_set_pathname_valid:
  assumes "valid_simple u"
  shows "valid_simple (simple_set_pathname p u)"
  using assms encode_path_no_end[of p]
  by (auto simp: valid_simple_def simple_set_pathname_def Let_def ends_path_def)

lemma simple_set_pathname_stripped:
  assumes v: "valid_simple u" and ne: "strip_trailing_slashes (s_path u) \<noteq> []"
  shows "s_path (simple_set_pathname (strip_trailing_slashes (s_path u)) u)
         = strip_trailing_slashes (s_path u)"
proof -
  define q where "q = strip_trailing_slashes (s_path u)"
  obtain z where z: "s_path u = q @ z"
    using strip_trailing_slashes_prefix[of "s_path u"] by (auto simp: prefix_def q_def)
  have a: "list_all (\<lambda>c. \<not> ends_path c) q"
    using v z by (simp add: valid_simple_def)
  have ne': "q \<noteq> []" using ne by (simp add: q_def)
  have "prefix ''/'' (q @ z)" using v z by (simp add: valid_simple_def)
  then have b: "prefix ''/'' q" using ne' by (cases q) auto
  show ?thesis
    using encode_path_id[OF a] b by (simp add: simple_set_pathname_def Let_def q_def)
qed

lemma simple_set_pathname_same:
  assumes v: "valid_simple u"
  shows "simple_set_pathname (s_path u) u = u"
proof -
  have a: "list_all (\<lambda>c. \<not> ends_path c) (s_path u)" and b: "prefix ''/'' (s_path u)"
    using v by (simp_all add: valid_simple_def)
  show ?thesis
    using encode_path_id[OF a] b by (simp add: simple_set_pathname_def Let_def)
qed

lemma simple_set_pathname_frame:
  "s_protocol (simple_set_pathname p u) = s_protocol u
   \<and> s_hash (simple_set_pathname p u) = s_hash u
   \<and> s_search (simple_set_pathname p u) = s_search u"
  by (simp add: simple_set_pathname_def)

lemma simple_set_pathname_root:
  "s_path (simple_set_pathname ''/'' u) = ''/'' \<and> s_path (simple_set_pathname [] u) = ''/''"
  by (simp add: simple_set_pathname_def encode_path_def)

lemma simple_urls_laws: "url_laws simple_urls (Collect valid_simple)"
proof -
  have 1: "parser_laws simple_urls (Collect valid_simple)"
    using simple_parse_valid simple_roundtrip simple_href_hasProtocol
    by (auto simp: parser_laws_def simple_urls_def)
  have 2: "setters_keep_urls simple_urls (Collect valid_simple)"
    using simple_set_pathname_valid
    by (auto simp: setters_keep_urls_def simple_urls_def valid_simple_def simple_set_protocol_def
        simple_set_hash_def simple_set_search_def is_http_def)
  have 3: "protocol_setter_laws simple_urls (Collect valid_simple)"
    by (auto simp: protocol_setter_laws_def simple_urls_def simple_set_protocol_def is_http_def)
  have 4: "hash_setter_laws simple_urls (Collect valid_simple)"
    by (auto simp: hash_setter_laws_def simple_urls_def simple_set_hash_def)
  have 5: "search_setter_laws simple_urls (Collect valid_simple)"
    by (auto simp: search_setter_laws_def simple_urls_def simple_set_search_def)
  have 6: "pathname_setter_laws simple_urls (Collect valid_simple)"
    using simple_set_pathname_stripped simple_set_pathname_same
    by (simp add: pathname_setter_laws_def simple_urls_def simple_set_pathname_frame
        simple_set_pathname_root)
  from 1 2 3 4 5 6 show ?thesis by (simp add: url_laws_def)
qed

theorem normalizeUrl_idempotent_witness:
  "url_laws simple_urls (Collect valid_simple)
   \<and> normalizeUrl simple_urls ''HTTP://Example.com/a/b//?q=1#frag'' None
       = Inr ''https://example.com/a/b''
   \<and> normalizeUrl simple_urls ''https://example.com/a/b'' None = Inr ''https://example.com/a/b''
   \<and> normalizeUrl_extractor simple_urls ''Example.com/a/?q=1#frag''
       = Inr ''https://example.com/a/?q=1''
   \<and> normalizeUrl_extractor simple_urls ''https://example.com/a/?q=1''
       = Inr ''https://example.com/a/?q=1''"
proof -
  have a: "normalizeUrl simple_urls ''HTTP://Example.com/a/b//?q=1#frag'' None
       = Inr ''https://example.com/a/b''"
    by code_simp
  have b: "normalizeUrl_extractor simple_urls ''Example.com/a/?q=1#frag''
       = Inr ''https://example.com/a/?q=1''"
    by code_simp
  show ?thesis
    using normalizeUrl_idempotent[OF simple_urls_laws,
        of "''HTTP://Example.com/a/b//?q=1#frag''" "''https://example.com/a/b''"
           "''https://example.com/a/?q=1''"]
      normalizeUrl_idempotent[OF simple_urls_laws,
        of "''Example.com/a/?q=1#frag''" "''https://example.com/a/b''"
           "''https://example.com/a/?q=1''"]
      a b simple_urls_laws by simp
qed

section \<open>Single-page extraction: fetching and failure classification\<close>

record http_response =
  status :: nat
  content_type :: "string option"
  byteLength :: nat
  response_url :: string
  body :: string

definition response_ok :: "http_response \<Rightarrow> bool" where
  "response_ok r \<longleftrightarrow> 200 \<le> status r \<and> status r \<le> 299"

text \<open>
  \<open>fetch\<close> parses its argument as a URL and rejects when that fails or when the network
  does; \<open>None\<close> is the rejected promise. The network maps a serialized URL to the response
  it gives, if any.
\<close>

definition fetch :: "'u url_api \<Rightarrow> (string \<Rightarrow> http_response option) \<Rightarrow> string \<Rightarrow> http_response option" where
  "fetch P net url = (case new_URL P url of None \<Rightarrow> None | Some u \<Rightarrow> net (href P u))"

fun decimal :: "nat \<Rightarrow> string" where
  "decimal n = (if n < 10 then [digit_chars ! n] else decimal (n div 10) @ [digit_chars ! (n mod 10)])"

declare decimal.simps [simp del]

definition EXTRACTOR_MAX_DOCUMENT_BYTES :: nat where
  "EXTRACTOR_MAX_DOCUMENT_BYTES = 3 * 1024 * 1024"

definition header_or_empty :: "string option \<Rightarrow> string" where
  "header_or_empty h = (case h of None \<Rightarrow> [] | Some v \<Rightarrow> v)"

definition fetchHtml ::
  "'u url_api \<Rightarrow> (string \<Rightarrow> http_response option) \<Rightarrow> string \<Rightarrow> ExtractionError + (string \<times> string)" where
  "fetchHtml P net targetUrl =
     (case fetch P net targetUrl of
        None \<Rightarrow> Inl \<lparr>err_message = ''Unable to reach source URL.'', err_status = 502\<rparr>
      | Some response \<Rightarrow>
          if \<not> response_ok response then
            Inl \<lparr>err_message = ''Source responded with status '' @ decimal (status response) @ ''.'',
                 err_status = (if status response \<ge> 500 then 502 else 400)\<rparr>
          else if \<not> str_includes (header_or_empty (content_type response)) ''text/html'' then
            Inl \<lparr>err_message = ''Source did not return HTML content.'', err_status = 400\<rparr>
          else if byteLength response = 0 then
            Inl \<lparr>err_message = ''Fetched document was empty.'', err_status = 400\<rparr>
          else if byteLength response > EXTRACTOR_MAX_DOCUMENT_BYTES then
            Inl \<lparr>err_message = ''HTML payload exceeds the 3 MB safety limit.'', err_status = 400\<rparr>
          else Inr (body response,
                    if response_url response \<noteq> [] then response_url response else targetUrl))"

text \<open>
  The extractor library's \<open>extractStructuredContent\<close>. What it does with the fetched HTML
  (DOM, readability, Markdown) is the parameter \<open>build\<close>.
\<close>

definition extractStructuredContent ::
  "'u url_api \<Rightarrow> (string \<Rightarrow> http_response option) \<Rightarrow> (string \<Rightarrow> string \<Rightarrow> 'r) \<Rightarrow> string
   \<Rightarrow> ExtractionError + 'r" where
  "extractStructuredContent P net build inputUrl =
     (case normalizeUrl_extractor P inputUrl of
        Inl e \<Rightarrow> Inl e
      | Inr normalizedUrl \<Rightarrow>
          (case fetchHtml P net normalizedUrl of
             Inl e \<Rightarrow> Inl e
           | Inr (html, finalUrl) \<Rightarrow> Inr (build html finalUrl)))"

text \<open>
  The extraction route has an \<open>extractStructuredContent\<close> of its own, and its \<open>POST\<close>
  handler answers with the status of the error.
\<close>

definition route_extractStructuredContent ::
  "'u url_api \<Rightarrow> (string \<Rightarrow> http_response option) \<Rightarrow> (string \<Rightarrow> http_response \<Rightarrow> 'r) \<Rightarrow> string
   \<Rightarrow> ExtractionError + 'r" where
  "route_extractStructuredContent P net build url =
     (case fetch P net url of
        None \<Rightarrow> Inl \<lparr>err_message = ''Unable to fetch URL.'', err_status = 502\<rparr>
      | Some response \<Rightarrow>
          if \<not> response_ok response
          then Inl \<lparr>err_message = ''Upstream error: '' @ decimal (status response),
                    err_status = 502\<rparr>
          else Inr (build url response))"

record reply =
  reply_status :: nat
  reply_body :: string

definition route_POST ::
  "'u url_api \<Rightarrow> (string \<Rightarrow> http_response option) \<Rightarrow> (string \<Rightarrow> http_response \<Rightarrow> string)
   \<Rightarrow> string option \<Rightarrow> reply" where
  \<comment> \<open>The last argument is the \<open>url\<close> field of the request body when it is a string.\<close>
  "route_POST P net mdf payload_url =
     (let inputUrl = (case payload_url of Some s \<Rightarrow> trim s | None \<Rightarrow> [])
      in if inputUrl = [] then
           \<lparr>reply_status = 400, reply_body = ''Provide a valid URL in the request body.''\<rparr>
         else case route_extractStructuredContent P net mdf inputUrl of
                Inr text \<Rightarrow> \<lparr>reply_status = 200, reply_body = text\<rparr>
              | Inl e \<Rightarrow> \<lparr>reply_status = err_status e, reply_body = err_message e\<rparr>)"

definition failure_status :: "ExtractionError + 'r \<Rightarrow> nat option" where
  "failure_status x = (case x of Inl e \<Rightarrow> Some (err_status e) | Inr _ \<Rightarrow> None)"

definition unsupported_content :: "http_response \<Rightarrow> bool" where
  "unsupported_content r \<longleftrightarrow>
     \<not> str_includes (header_or_empty (content_type r)) ''text/html''
     \<or> byteLength r = 0 \<or> byteLength r > EXTRACTOR_MAX_DOCUMENT_BYTES"

definition not_found :: "string \<Rightarrow> http_response option" where
  "not_found u = Some \<lparr>status = 404, content_type = Some ''text/html'', byteLength = 9,
                       response_url = u, body = ''Not Found''\<rparr>"


text \<open>
  The claim C6 as stated fails on the extraction route: an upstream 404 is answered with
  502, not 400.
\<close>

theorem route_404_is_502:
  "reply_status (route_POST simple_urls not_found (\<lambda>u r. body r)
                   (Some ''https://example.com/missing'')) = 502"
  by code_simp

lemma fetchHtml_status:
  "failure_status (fetchHtml P net n) =
     (case fetch P net n of
        None \<Rightarrow> Some 502
      | Some r \<Rightarrow> if \<not> response_ok r then (if status r \<ge> 500 then Some 502 else Some 400)
                  else if unsupported_content r then Some 400 else None)"
  by (auto simp: fetchHtml_def failure_status_def unsupported_content_def split: option.splits)

lemma extractStructuredContent_status:
  "failure_status (extractStructuredContent P net build inputUrl) =
     (case normalizeUrl_extractor P inputUrl of
        Inl e \<Rightarrow> Some (err_status e)
      | Inr n \<Rightarrow> failure_status (fetchHtml P net n))"
  by (auto simp: extractStructuredContent_def failure_status_def split: sum.splits)

lemma normalizeUrl_extractor_status:
  "normalizeUrl_extractor P inputUrl = Inl e \<Longrightarrow> err_status e = 400"
  by (auto simp: normalizeUrl_extractor_def split: option.splits if_splits)

lemma response_ok_status: "\<not> response_ok r \<Longrightarrow> status r \<ge> 500 \<or> status r < 500"
  by auto

text \<open>
  C6, amended. The extractor library fails with status 400 exactly when the URL does not
  parse, the upstream status is outside 2xx and below 500, or a 2xx response is not HTML,
  is empty or exceeds 3 MiB; and with 502 exactly when the request fails or the upstream
  status is 500 or more. The extraction route's own extractor fails with 502 exactly when
  the request fails or the status is outside 2xx, never with 400; its handler answers 400
  exactly when the body carries no URL.
\<close>

theorem extraction_status_classes:
  "(failure_status (extractStructuredContent P net build inputUrl) = Some 400) =
     ((\<exists>e. normalizeUrl_extractor P inputUrl = Inl e)
      \<or> (\<exists>n r. normalizeUrl_extractor P inputUrl = Inr n \<and> fetch P net n = Some r
            \<and> (if response_ok r then unsupported_content r else status r < 500)))
   \<and> (failure_status (extractStructuredContent P net build inputUrl) = Some 502) =
     (\<exists>n. normalizeUrl_extractor P inputUrl = Inr n
         \<and> (case fetch P net n of None \<Rightarrow> True | Some r \<Rightarrow> status r \<ge> 500))
   \<and> (failure_status (route_extractStructuredContent P net rbuild url) = Some 502) =
     (case fetch P net url of None \<Rightarrow> True | Some r \<Rightarrow> status r < 200 \<or> status r > 299)
   \<and> failure_status (route_extractStructuredContent P net rbuild url) \<noteq> Some 400
   \<and> (reply_status (route_POST P net mdf payload_url) = 400) =
     (case payload_url of None \<Rightarrow> True | Some s \<Rightarrow> trim s = [])"
proof (intro conjI)
  show "(failure_status (extractStructuredContent P net build inputUrl) = Some 400) =
     ((\<exists>e. normalizeUrl_extractor P inputUrl = Inl e)
      \<or> (\<exists>n r. normalizeUrl_extractor P inputUrl = Inr n \<and> fetch P net n = Some r
            \<and> (if response_ok r then unsupported_content r else status r < 500)))"
  proof (cases "normalizeUrl_extractor P inputUrl")
    case (Inl e)
    then show ?thesis
      using normalizeUrl_extractor_status[OF Inl] by (simp add: extractStructuredContent_status)
  next
    case (Inr n)
    then show ?thesis
      by (cases "fetch P net n")
         (auto simp: extractStructuredContent_status fetchHtml_status response_ok_def)
  qed
  show "(failure_status (extractStructuredContent P net build inputUrl) = Some 502) =
     (\<exists>n. normalizeUrl_extractor P inputUrl = Inr n
         \<and> (case fetch P net n of None \<Rightarrow> True | Some r \<Rightarrow> status r \<ge> 500))"
  proof (cases "normalizeUrl_extractor P inputUrl")
    case (Inl e)
    then show ?thesis
      using normalizeUrl_extractor_status[OF Inl] by (simp add: extractStructuredContent_status)
  next
    case (Inr n)
    then show ?thesis
      by (cases "fetch P net n")
         (auto simp: extractStructuredContent_status fetchHtml_status response_ok_def)
  qed
  show "(failure_status (route_extractStructuredContent P net rbuild url) = Some 502) =
     (case fetch P net url of None \<Rightarrow> True | Some r \<Rightarrow> status r < 200 \<or> status r > 299)"
    by (cases "fetch P net url")
       (auto simp: route_extractStructuredContent_def failure_status_def response_ok_def)
  show "failure_status (route_extractStructuredContent P net rbuild url) \<noteq> Some 400"
    by (cases "fetch P net url")
       (auto simp: route_extractStructuredContent_def failure_status_def)
  show "(reply_status (route_POST P net mdf payload_url) = 400) =
     (case payload_url of None \<Rightarrow> True | Some s \<Rightarrow> trim s = [])"
  proof (cases payload_url)
    case None
    then show ?thesis by (simp add: route_POST_def)
  next
    case (Some s)
    show ?thesis
    proof (cases "trim s = []")
      case True
      then show ?thesis using Some by (simp add: route_POST_def)
    next
      case False
      then show ?thesis using Some
        by (cases "fetch P net (trim s)")
           (auto simp: route_POST_def route_extractStructuredContent_def)
    qed
  qed
qed

theorem extraction_status_classes_witness:
  "failure_status (extractStructuredContent simple_urls not_found (\<lambda>h u. h)
                     ''https://example.com/missing'') = Some 400
   \<and> failure_status (route_extractStructuredContent simple_urls not_found (\<lambda>u r. body r)
                     ''https://example.com/missing'') = Some 502"
proof -
  have a: "normalizeUrl_extractor simple_urls ''https://example.com/missing''
           = Inr ''https://example.com/missing''"
    by code_simp
  have b: "fetch simple_urls not_found ''https://example.com/missing''
           = Some \<lparr>status = 404, content_type = Some ''text/html'', byteLength = 9,
                   response_url = ''https://example.com/missing'', body = ''Not Found''\<rparr>"
    by code_simp
  have c: "\<not> response_ok \<lparr>status = 404, content_type = Some ''text/html'', byteLength = 9,
                   response_url = ''https://example.com/missing'', body = ''Not Found''\<rparr>"
    by (simp add: response_ok_def)
  show ?thesis
    using extraction_status_classes[of simple_urls not_found "\<lambda>h u. h"
        "''https://example.com/missing''" "\<lambda>u r. body r" "''https://example.com/missing''"
        "\<lambda>u r. body r" None] a b c
    by simp
qed

section \<open>The crawler\<close>

datatype PageType = homepage | article | product | docs | category

record PageEntry =
  url :: string
  ai_url :: string
  page_type :: PageType
  priority :: rat

record QueueItem =
  item_url :: string
  depth :: nat

text \<open>
  What the crawler reads from a parsed document: the \<open>content\<close> of the first
  \<open>meta[property='og:type']\<close>, whether a \<open>meta[property='article:published_time']\<close> exists,
  the \<open>href\<close> attribute of the first \<open>link[rel='canonical']\<close>, and the \<open>href\<close> attributes
  of the \<open>a[href]\<close> elements.
\<close>

record page_document =
  og_type :: "string option"
  has_published_time :: bool
  canonical_href :: "string option"
  anchors :: "string list"

record FetchResult =
  finalUrl :: string
  canonical :: "string option"
  document :: page_document
  links :: "string list"

text \<open>
  The surroundings of one crawl: the URL class, the network, the HTML parser and the
  robots checker that \<open>loadRobots\<close> produced for the site.
\<close>

record 'u crawl_env =
  urls :: "'u url_api"
  net :: "string \<Rightarrow> http_response option"
  dom :: "string \<Rightarrow> page_document"
  robots_allows :: "string \<Rightarrow> bool"

definition MAX_DOCUMENT_BYTES :: nat where
  "MAX_DOCUMENT_BYTES = 2 * 1024 * 1024"

definition STATIC_EXTENSIONS :: "string list" where
  "STATIC_EXTENSIONS =
     [''.jpg'', ''.jpeg'', ''.png'', ''.gif'', ''.svg'', ''.webp'', ''.ico'', ''.css'', ''.js'',
      ''.pdf'', ''.zip'', ''.mp4'', ''.mp3'', ''.woff'', ''.woff2'', ''.ttf'', ''.otf'']"

definition is_word_char :: "char \<Rightarrow> bool" where
  "is_word_char c \<longleftrightarrow> is_upper c \<or> is_lower c \<or> is_digit c \<or> c = CHR ''_''"

text \<open>
  A pattern \<open>/\/(w1|w2|...)\b/i\<close> or, without the boundary, \<open>/\/(w1|w2|...)/i\<close>: somewhere in
  the text a slash, one of the words, and (with the boundary) no word character after it.
\<close>

definition segment_here :: "bool \<Rightarrow> string list \<Rightarrow> string \<Rightarrow> bool" where
  "segment_here boundary words t =
     list_ex (\<lambda>w. prefix (CHR ''/'' # w) (toLowerCase t)
                \<and> (\<not> boundary \<or> (case drop (Suc (length w)) t of
                                      [] \<Rightarrow> True | c # _ \<Rightarrow> \<not> is_word_char c))) words"

definition segment_test :: "bool \<Rightarrow> string list \<Rightarrow> string \<Rightarrow> bool" where
  "segment_test boundary words path = list_ex (segment_here boundary words) (suffixes path)"

definition BLOCKED_SEGMENTS :: "(string \<Rightarrow> bool) list" where
  "BLOCKED_SEGMENTS =
     [segment_test True [''login'', ''logout'', ''signin'', ''signup'', ''register'', ''auth''],
      segment_test True [''admin'', ''dashboard''],
      segment_test True [''account'', ''profile''],
      segment_test True [''cart'', ''checkout''],
      segment_test False [''search'', ''filter'', ''track'', ''query'']]"

text \<open>\<open>value.replace(/^www\./i, "")\<close>\<close>

definition strip_www :: "string \<Rightarrow> string" where
  "strip_www v = (if prefix ''www.'' (toLowerCase v) then drop 4 v else v)"

definition hostKey :: "string \<Rightarrow> string" where
  "hostKey v = toLowerCase (strip_www v)"

definition isSameHost :: "'u url_api \<Rightarrow> 'u \<Rightarrow> 'u \<Rightarrow> bool" where
  "isSameHost P rootUrl candidate \<longleftrightarrow> hostKey (hostname P rootUrl) = hostKey (hostname P candidate)"

definition isBlockedPath :: "'u url_api \<Rightarrow> 'u \<Rightarrow> bool" where
  "isBlockedPath P u =
     (let path = toLowerCase (pathname P u)
      in if list_ex (\<lambda>ext. suffix ext path) STATIC_EXTENSIONS then True
         else list_ex (\<lambda>pattern. pattern path) BLOCKED_SEGMENTS)"

definition inferType :: "'u url_api \<Rightarrow> 'u \<Rightarrow> page_document \<Rightarrow> PageType" where
  "inferType P u doc =
     (let path = toLowerCase (pathname P u);
          ogType = map_option toLowerCase (og_type doc)
      in if path = ''/'' then homepage
         else if ogType = Some ''product'' \<or> str_includes path ''/product''
                 \<or> str_includes path ''/pricing'' then product
         else if ogType = Some ''article'' \<or> has_published_time doc then article
         else if str_includes path ''/blog'' \<or> str_includes path ''/news'' then article
         else if str_includes path ''/docs'' \<or> str_includes path ''/documentation''
                 \<or> str_includes path ''/guide'' then docs
         else if str_includes path ''/category'' \<or> str_includes path ''/collections''
                 \<or> str_includes path ''/topics'' then category
         else category)"

fun priorityForType :: "PageType \<Rightarrow> rat" where
  "priorityForType homepage = 1"
| "priorityForType product = 8 / 10"
| "priorityForType docs = 8 / 10"
| "priorityForType article = 6 / 10"
| "priorityForType category = 5 / 10"

definition buildAiUrl :: "'u url_api \<Rightarrow> 'u \<Rightarrow> string \<Rightarrow> string" where
  "buildAiUrl P u domain =
     (let path = (if pathname P u = ''/'' then ''/'' else pathname P u)
      in ''https://ai.'' @ domain @ path)"

definition collectCanonical :: "page_document \<Rightarrow> string option" where
  "collectCanonical doc = map_option trim (canonical_href doc)"

definition fetchPage :: "'u crawl_env \<Rightarrow> string \<Rightarrow> FetchResult option" where
  "fetchPage E u =
     (case fetch (urls E) (net E) u of
        None \<Rightarrow> None
      | Some response \<Rightarrow>
          if \<not> response_ok response then None
          else if \<not> str_includes (header_or_empty (content_type response)) ''text/html'' then None
          else if byteLength response = 0 \<or> byteLength response > MAX_DOCUMENT_BYTES then None
          else (let doc = dom E (body response)
                in Some \<lparr>finalUrl = (if response_url response \<noteq> [] then response_url response
                                       else u),
                         canonical = collectCanonical doc,
                         document = doc,
                         links = extractLinks (anchors doc)\<rparr>))"

record crawl_state =
  queue :: "QueueItem list"
  visited :: "string set"
  recorded :: "string set"
  pages :: "PageEntry list"

text \<open>
  One pass of the \<open>try\<close> block inside the link loop: \<open>None\<close> when the link is skipped
  or its normalisation throws.
\<close>

definition link_item ::
  "'u crawl_env \<Rightarrow> 'u \<Rightarrow> string set \<Rightarrow> 'u \<Rightarrow> QueueItem \<Rightarrow> string \<Rightarrow> QueueItem option" where
  "link_item E rootUrl seen canon current h =
     (case normalizeUrl (urls E) h (Some (href (urls E) canon)) of
        Inl e \<Rightarrow> None
      | Inr normalizedLink \<Rightarrow>
          (case new_URL (urls E) normalizedLink of
             None \<Rightarrow> None
           | Some linkUrl \<Rightarrow>
               if \<not> isSameHost (urls E) rootUrl linkUrl then None
               else if isBlockedPath (urls E) linkUrl then None
               else if \<not> robots_allows E (pathname (urls E) linkUrl) then None
               else if normalizedLink \<in> seen then None
               else Some \<lparr>item_url = normalizedLink, depth = depth current + 1\<rparr>))"

text \<open>
  The body of the \<open>while\<close> loop for the queue head \<open>current\<close>, the rest of the queue being
  already in the state. \<open>Inl\<close> is an exception that leaves the loop.
\<close>

definition visit ::
  "'u crawl_env \<Rightarrow> 'u \<Rightarrow> string \<Rightarrow> rat \<Rightarrow> QueueItem \<Rightarrow> crawl_state \<Rightarrow> string + crawl_state" where
  "visit E rootUrl siteDomain limit current st =
     (case normalizeUrl (urls E) (item_url current) None of
        Inl e \<Rightarrow> Inl e
      | Inr normalizedCurrent \<Rightarrow>
          if normalizedCurrent \<in> visited st then Inr st
          else
            (let st1 = st\<lparr>visited := insert normalizedCurrent (visited st)\<rparr>
             in case new_URL (urls E) normalizedCurrent of
                  None \<Rightarrow> Inl ''Invalid URL''
                | Some currentUrl \<Rightarrow>
                    if \<not> isSameHost (urls E) rootUrl currentUrl then Inr st1
                    else if \<not> robots_allows E (pathname (urls E) currentUrl) then Inr st1
                    else if isBlockedPath (urls E) currentUrl then Inr st1
                    else
                      (case fetchPage E normalizedCurrent of
                         None \<Rightarrow> Inr st1
                       | Some page \<Rightarrow>
                           (case normalizeUrl (urls E)
                                   (case canonical page of Some c \<Rightarrow> c | None \<Rightarrow> finalUrl page)
                                   None of
                              Inl e \<Rightarrow> Inl e
                            | Inr canonicalUrl \<Rightarrow>
                                (case new_URL (urls E) canonicalUrl of
                                   None \<Rightarrow> Inl ''Invalid URL''
                                 | Some canon \<Rightarrow>
                                     if \<not> isSameHost (urls E) rootUrl canon then Inr st1
                                     else if isBlockedPath (urls E) canon
                                             \<or> \<not> robots_allows E (pathname (urls E) canon)
                                     then Inr st1
                                     else
                                       (let st2 =
                                          (if canonicalUrl \<notin> recorded st1
                                           then (let pageType = inferType (urls E) canon (document page)
                                                 in st1\<lparr>pages := pages st1 @
                                                           [\<lparr>url = canonicalUrl,
                                                             ai_url = buildAiUrl (urls E) canon siteDomain,
                                                             page_type = pageType,
                                                             priority = priorityForType pageType\<rparr>],
                                                         recorded := insert canonicalUrl (recorded st1)\<rparr>)
                                           else st1)
                                        in if of_nat (depth current) < limit
                                           then Inr (st2\<lparr>queue := queue st2 @
                                                   List.map_filter
                                                     (link_item E rootUrl (visited st2) canon current)
                                                     (links page)\<rparr>)
                                           else Inr st2))))))"

definition crawl_step ::
  "'u crawl_env \<Rightarrow> 'u \<Rightarrow> string \<Rightarrow> rat \<Rightarrow> crawl_state \<Rightarrow> string + crawl_state" where
  "crawl_step E rootUrl siteDomain limit st =
     (case queue st of
        [] \<Rightarrow> Inr st
      | current # rest \<Rightarrow> visit E rootUrl siteDomain limit current (st\<lparr>queue := rest\<rparr>))"

definition loop_guard :: "crawl_state \<Rightarrow> bool" where
  "loop_guard st \<longleftrightarrow> queue st \<noteq> [] \<and> length (pages st) < MAX_PAGES"

definition weight :: "rat \<Rightarrow> QueueItem \<Rightarrow> nat" where
  "weight limit it = nat (\<lceil>limit\<rceil>) + 1 - depth it"

lemma visit_queue:
  assumes "visit E rootUrl sd limit cur st = Inr st'"
  shows "\<exists>kids. queue st' = queue st @ kids
           \<and> (\<forall>k\<in>set kids. depth k = depth cur + 1)
           \<and> (kids \<noteq> [] \<longrightarrow> of_nat (depth cur) < limit)"
proof -
  have mf: "\<And>xs seen canon. \<forall>k\<in>set (List.map_filter (link_item E rootUrl seen canon cur) xs).
              depth k = depth cur + 1"
    by (auto simp: map_filter_def link_item_def split: sum.splits option.splits if_splits)
  show ?thesis
    using assms mf
    by (auto simp: visit_def Let_def split: sum.splits option.splits if_splits)
qed


lemma crawl_step_queue:
  assumes "crawl_step E rootUrl sd limit st = Inr st'" and "queue st = cur # rest"
  shows "\<exists>kids. queue st' = rest @ kids
           \<and> (\<forall>k\<in>set kids. depth k = depth cur + 1)
           \<and> (kids \<noteq> [] \<longrightarrow> of_nat (depth cur) < limit)"
  using assms visit_queue[of E rootUrl sd limit cur "st\<lparr>queue := rest\<rparr>" st']
  by (simp add: crawl_step_def)

lemma weight_child:
  assumes "of_nat (depth cur) < limit" and "depth k = depth cur + 1"
  shows "weight limit k < weight limit cur"
proof -
  have "int (depth cur) < \<lceil>limit\<rceil>"
    using assms(1) by (simp add: less_ceiling_iff)
  then have "depth cur < nat \<lceil>limit\<rceil>" by linarith
  then show ?thesis using assms(2) by (simp add: weight_def)
qed

lemma crawl_step_decreases:
  assumes "crawl_step E rootUrl sd limit st = Inr st'" and "queue st \<noteq> []"
  shows "(mset (map (weight limit) (queue st')), mset (map (weight limit) (queue st)))
         \<in> mult less_than"
proof -
  obtain cur rest where q: "queue st = cur # rest"
    using assms(2) by (cases "queue st") auto
  obtain kids where k: "queue st' = rest @ kids"
    and d: "\<forall>k\<in>set kids. depth k = depth cur + 1"
    and l: "kids \<noteq> [] \<longrightarrow> of_nat (depth cur) < limit"
    using crawl_step_queue[OF assms(1) q] by blast
  have "\<forall>w\<in>#mset (map (weight limit) kids). \<exists>j\<in>#{#weight limit cur#}. (w, j) \<in> less_than"
    using d l weight_child[of cur limit] by auto
  then have "(mset (map (weight limit) rest) + mset (map (weight limit) kids),
              mset (map (weight limit) rest) + {#weight limit cur#}) \<in> mult less_than"
    by (intro one_step_implies_mult) simp_all
  then show ?thesis by (simp add: q k)
qed

function crawl_loop ::
  "'u crawl_env \<Rightarrow> 'u \<Rightarrow> string \<Rightarrow> rat \<Rightarrow> crawl_state \<Rightarrow> string + crawl_state" where
  "crawl_loop E rootUrl siteDomain limit st =
     (if queue st \<noteq> [] \<and> length (pages st) < MAX_PAGES
      then (case crawl_step E rootUrl siteDomain limit st of
              Inl e \<Rightarrow> Inl e
            | Inr st' \<Rightarrow> crawl_loop E rootUrl siteDomain limit st')
      else Inr st)"
  by pat_completeness auto
termination
proof (relation "inv_image (mult less_than)
         (\<lambda>(E, rootUrl, siteDomain, limit, st). mset (map (weight limit) (queue st)))")
  show "wf (inv_image (mult less_than)
         (\<lambda>(E :: 'u crawl_env, rootUrl :: 'u, siteDomain :: string, limit, st).
            mset (map (weight limit) (queue st))))"
    by (simp add: wf_mult)
next
  fix E :: "'u crawl_env" and rootUrl :: 'u and siteDomain limit st st'
  assume "queue st \<noteq> [] \<and> length (pages st) < MAX_PAGES"
    and "crawl_step E rootUrl siteDomain limit st = Inr st'"
  then show "((E, rootUrl, siteDomain, limit, st'), (E, rootUrl, siteDomain, limit, st))
      \<in> inv_image (mult less_than)
          (\<lambda>(E, rootUrl, siteDomain, limit, st). mset (map (weight limit) (queue st)))"
    using crawl_step_decreases[of E rootUrl siteDomain limit st st'] by simp
qed

declare crawl_loop.simps [simp del]

definition initial_state :: "string \<Rightarrow> crawl_state" where
  "initial_state normalizedRoot =
     \<lparr>queue = [\<lparr>item_url = normalizedRoot, depth = 0\<rparr>], visited = {}, recorded = {},
      pages = []\<rparr>"

datatype crawl_reply = CrawlError nat string | CrawlOk string "PageEntry list"

text \<open>
  The crawl route's \<open>POST\<close>, up to the pages it returns; the arguments are the \<open>url\<close> field
  of the body when it is a string, and the \<open>maxDepth\<close> field. Every exception inside the
  handler's \<open>try\<close> block becomes a reply with status 400.
\<close>

definition crawl_POST :: "'u crawl_env \<Rightarrow> string option \<Rightarrow> jsnum option \<Rightarrow> crawl_reply" where
  "crawl_POST E payload_url maxDepth =
     (let inputUrl = (case payload_url of Some s \<Rightarrow> trim s | None \<Rightarrow> [])
      in if inputUrl = [] then CrawlError 400 ''Provide a root URL to crawl.''
         else case normalizeUrl (urls E) inputUrl None of
                Inl e \<Rightarrow> CrawlError 400 e
              | Inr normalizedRoot \<Rightarrow>
                  (case new_URL (urls E) normalizedRoot of
                     None \<Rightarrow> CrawlError 400 ''Invalid URL''
                   | Some rootUrl \<Rightarrow>
                       (let limit = depthLimit maxDepth;
                            siteDomain = strip_www (hostname (urls E) rootUrl)
                        in case crawl_loop E rootUrl siteDomain limit (initial_state normalizedRoot) of
                             Inl e \<Rightarrow> CrawlError 400 e
                           | Inr st \<Rightarrow> CrawlOk siteDomain (pages st))))"

inductive reachable ::
  "'u crawl_env \<Rightarrow> 'u \<Rightarrow> string \<Rightarrow> rat \<Rightarrow> crawl_state \<Rightarrow> crawl_state \<Rightarrow> bool"
  for E rootUrl siteDomain limit st0 where
  start: "reachable E rootUrl siteDomain limit st0 st0"
| step: "reachable E rootUrl siteDomain limit st0 st \<Longrightarrow> loop_guard st
         \<Longrightarrow> crawl_step E rootUrl siteDomain limit st = Inr st'
         \<Longrightarrow> reachable E rootUrl siteDomain limit st0 st'"

text \<open>
  Two small sites on \<open>example.com\<close> for the examples. On the first the home page carries
  \<open><link rel="canonical" href="">\<close>. On the second the home page links to \<open>/a\<close> and
  \<open>/b\<close>, and both of these pages declare the same canonical URL.
\<close>

definition html_page :: "string \<Rightarrow> string \<Rightarrow> http_response option" where
  "html_page name u = Some \<lparr>status = 200, content_type = Some ''text/html; charset=utf-8'',
                            byteLength = length name, response_url = u, body = name\<rparr>"

definition plain_doc :: page_document where
  "plain_doc = \<lparr>og_type = None, has_published_time = False, canonical_href = None, anchors = []\<rparr>"

definition empty_canonical_site :: "simple_url crawl_env" where
  "empty_canonical_site =
     \<lparr>urls = simple_urls,
      net = (\<lambda>u. if u = ''https://example.com/'' then html_page ''home'' u else None),
      dom = (\<lambda>h. plain_doc\<lparr>canonical_href := Some []\<rparr>),
      robots_allows = (\<lambda>p. True)\<rparr>"

definition shared_canonical_site :: "string \<Rightarrow> simple_url crawl_env" where
  "shared_canonical_site canon =
     \<lparr>urls = simple_urls,
      net = (\<lambda>u. if u = ''https://example.com/'' then html_page ''home'' u
                 else if u = ''https://example.com/a'' then html_page ''a'' u
                 else if u = ''https://example.com/b'' then html_page ''b'' u
                 else None),
      dom = (\<lambda>h. if h = ''home'' then plain_doc\<lparr>anchors := [''/a'', ''/b'']\<rparr>
                 else plain_doc\<lparr>canonical_href := Some canon\<rparr>),
      robots_allows = (\<lambda>p. True)\<rparr>"

text \<open>
  The queue item for which the next pass of the loop calls \<open>fetchPage\<close>, if it does, and
  the canonical URL with which that pass reaches the recording step, if it does.
\<close>

definition fetch_target :: "'u crawl_env \<Rightarrow> 'u \<Rightarrow> crawl_state \<Rightarrow> (QueueItem \<times> string) option" where
  "fetch_target E rootUrl st =
     (case queue st of
        [] \<Rightarrow> None
      | current # rest \<Rightarrow>
          (case normalizeUrl (urls E) (item_url current) None of
             Inl e \<Rightarrow> None
           | Inr normalizedCurrent \<Rightarrow>
               if normalizedCurrent \<in> visited st then None
               else (case new_URL (urls E) normalizedCurrent of
                       None \<Rightarrow> None
                     | Some currentUrl \<Rightarrow>
                         if \<not> isSameHost (urls E) rootUrl currentUrl then None
                         else if \<not> robots_allows E (pathname (urls E) currentUrl) then None
                         else if isBlockedPath (urls E) currentUrl then None
                         else Some (current, normalizedCurrent))))"

definition accepted_canonical :: "'u crawl_env \<Rightarrow> 'u \<Rightarrow> crawl_state \<Rightarrow> string option" where
  "accepted_canonical E rootUrl st =
     (case fetch_target E rootUrl st of
        None \<Rightarrow> None
      | Some (current, normalizedCurrent) \<Rightarrow>
          (case fetchPage E normalizedCurrent of
             None \<Rightarrow> None
           | Some page \<Rightarrow>
               (case normalizeUrl (urls E)
                       (case canonical page of Some c \<Rightarrow> c | None \<Rightarrow> finalUrl page) None of
                  Inl e \<Rightarrow> None
                | Inr canonicalUrl \<Rightarrow>
                    (case new_URL (urls E) canonicalUrl of
                       None \<Rightarrow> None
                     | Some canon \<Rightarrow>
                         if \<not> isSameHost (urls E) rootUrl canon then None
                         else if isBlockedPath (urls E) canon
                                 \<or> \<not> robots_allows E (pathname (urls E) canon) then None
                         else Some canonicalUrl))))"

text \<open>
  The checks between the fetch and the recording step: the canonical URL is on the root's
  host, its path is not blocked, and robots allows it. The crawl keeps the invariant that
  every recorded page passed them.
\<close>

definition passes_canonical_checks :: "'u crawl_env \<Rightarrow> 'u \<Rightarrow> string \<Rightarrow> bool" where
  "passes_canonical_checks E rootUrl canonicalUrl =
     (case new_URL (urls E) canonicalUrl of
        None \<Rightarrow> False
      | Some canon \<Rightarrow>
          if \<not> isSameHost (urls E) rootUrl canon then False
          else if isBlockedPath (urls E) canon \<or> \<not> robots_allows E (pathname (urls E) canon)
          then False
          else True)"

definition checked_inv :: "'u crawl_env \<Rightarrow> 'u \<Rightarrow> crawl_state \<Rightarrow> bool" where
  "checked_inv E rootUrl st \<longleftrightarrow> list_all (\<lambda>p. passes_canonical_checks E rootUrl (url p)) (pages st)"

definition recorded_inv :: "crawl_state \<Rightarrow> bool" where
  "recorded_inv st \<longleftrightarrow> recorded st = url ` set (pages st) \<and> distinct (map url (pages st))"

lemma visit_pages:
  assumes "visit E rootUrl sd limit cur st = Inr st'"
  shows "length (pages st') \<le> length (pages st) + 1"
  using assms
  by (auto simp: visit_def Let_def split: sum.splits option.splits if_splits)

lemma visit_recorded:
  assumes "visit E rootUrl sd limit cur st = Inr st'" and "recorded_inv st"
  shows "recorded_inv st' \<and> recorded st \<subseteq> recorded st'"
  using assms
  by (auto simp: visit_def Let_def recorded_inv_def split: sum.splits option.splits if_splits)

lemma crawl_step_pages:
  assumes "crawl_step E rootUrl sd limit st = Inr st'"
  shows "length (pages st') \<le> length (pages st) + 1"
  using assms visit_pages[of E rootUrl sd limit _ "st\<lparr>queue := tl (queue st)\<rparr>" st']
  by (auto simp: crawl_step_def split: list.splits)

lemma crawl_step_recorded:
  assumes "crawl_step E rootUrl sd limit st = Inr st'" and "recorded_inv st"
  shows "recorded_inv st' \<and> recorded st \<subseteq> recorded st'"
proof (cases "queue st")
  case Nil
  then show ?thesis using assms by (simp add: crawl_step_def)
next
  case (Cons cur rest)
  have "recorded_inv (st\<lparr>queue := rest\<rparr>)" using assms(2) by (simp add: recorded_inv_def)
  then show ?thesis
    using assms(1) Cons visit_recorded[of E rootUrl sd limit cur "st\<lparr>queue := rest\<rparr>" st']
    by (simp add: crawl_step_def)
qed

lemma crawl_step_accepted:
  assumes "crawl_step E rootUrl sd limit st = Inr st'"
    and "accepted_canonical E rootUrl st = Some c"
  shows "c \<in> recorded st'"
  using assms
  by (auto simp: crawl_step_def visit_def accepted_canonical_def fetch_target_def Let_def
      split: list.splits sum.splits option.splits if_splits)


lemma crawl_loop_continue:
  assumes "loop_guard st"
  shows "crawl_loop E rootUrl sd limit st =
           (case crawl_step E rootUrl sd limit st of
              Inl e \<Rightarrow> Inl e
            | Inr st' \<Rightarrow> crawl_loop E rootUrl sd limit st')"
  using assms by (subst crawl_loop.simps) (simp add: loop_guard_def)

lemma crawl_loop_stop:
  assumes "\<not> loop_guard st"
  shows "crawl_loop E rootUrl sd limit st = Inr st"
  using assms by (subst crawl_loop.simps) (auto simp: loop_guard_def)

lemma reachable_front:
  assumes "reachable E rootUrl sd limit st' x" and "loop_guard st"
    and "crawl_step E rootUrl sd limit st = Inr st'"
  shows "reachable E rootUrl sd limit st x"
  using assms
proof (induction rule: reachable.induct)
  case start
  then show ?case using reachable.start reachable.step by metis
next
  case (step y y')
  then show ?case using reachable.step by metis
qed

lemma reachable_loop_eq:
  assumes "reachable E rootUrl sd limit st0 st"
  shows "crawl_loop E rootUrl sd limit st = crawl_loop E rootUrl sd limit st0"
  using assms
proof (induction rule: reachable.induct)
  case start
  show ?case by simp
next
  case (step st st')
  then show ?case using crawl_loop_continue[of st E rootUrl sd limit] by simp
qed

lemma crawl_loop_final:
  assumes "crawl_loop E rootUrl sd limit st = Inr fin"
  shows "reachable E rootUrl sd limit st fin \<and> \<not> loop_guard fin"
  using assms
proof (induction E rootUrl sd limit st rule: crawl_loop.induct)
  case (1 E rootUrl sd limit st)
  show ?case
  proof (cases "loop_guard st")
    case False
    then have "fin = st" using "1.prems" crawl_loop_stop[OF False, of E rootUrl sd limit] by simp
    then show ?thesis using False reachable.start by metis
  next
    case True
    then obtain st' where s: "crawl_step E rootUrl sd limit st = Inr st'"
      and l: "crawl_loop E rootUrl sd limit st' = Inr fin"
      using "1.prems" crawl_loop_continue[OF True, of E rootUrl sd limit]
      by (auto split: sum.splits)
    have g: "queue st \<noteq> [] \<and> length (pages st) < MAX_PAGES"
      using True by (simp add: loop_guard_def)
    have "reachable E rootUrl sd limit st' fin \<and> \<not> loop_guard fin"
      using "1.IH"[OF g s l] .
    then show ?thesis using reachable_front[OF _ True s] by blast
  qed
qed

lemma reachable_pages:
  assumes "reachable E rootUrl sd limit st0 st" and "length (pages st0) \<le> MAX_PAGES"
  shows "length (pages st) \<le> MAX_PAGES"
  using assms
proof (induction rule: reachable.induct)
  case start
  then show ?case by simp
next
  case (step st st')
  then show ?case
    using crawl_step_pages[of E rootUrl sd limit st st'] by (simp add: loop_guard_def)
qed

lemma crawl_POST_pages:
  assumes "crawl_POST E payload_url maxDepth = CrawlOk site ps"
  shows "\<exists>u rootUrl fin. crawl_loop E rootUrl site (depthLimit maxDepth) (initial_state u) = Inr fin
           \<and> ps = pages fin"
  using assms
  by (auto simp: crawl_POST_def Let_def split: if_splits sum.splits option.splits)

text \<open>
  C2. In every state the crawl loop reaches from its initial state the list of recorded
  pages has at most 120 entries; when the loop ends the queue is empty or the list has
  exactly 120 entries; and the pages of a successful reply are at most 120.
\<close>

theorem page_budget:
  "(reachable E rootUrl sd limit (initial_state u) st \<longrightarrow> length (pages st) \<le> MAX_PAGES)
   \<and> (crawl_loop E rootUrl sd limit (initial_state u) = Inr fin
        \<longrightarrow> length (pages fin) \<le> MAX_PAGES \<and> (queue fin = [] \<or> length (pages fin) = MAX_PAGES))
   \<and> (crawl_POST E payload_url maxDepth = CrawlOk site ps \<longrightarrow> length ps \<le> MAX_PAGES)
   \<and> MAX_PAGES = 120"
proof -
  have init: "length (pages (initial_state v)) \<le> MAX_PAGES" for v
    by (simp add: initial_state_def)
  have a: "reachable E rootUrl sd limit (initial_state u) st \<longrightarrow> length (pages st) \<le> MAX_PAGES"
  proof
    assume r: "reachable E rootUrl sd limit (initial_state u) st"
    show "length (pages st) \<le> MAX_PAGES" using reachable_pages[OF r init] .
  qed
  have b: "length (pages f) \<le> MAX_PAGES \<and> (queue f = [] \<or> length (pages f) = MAX_PAGES)"
    if "crawl_loop E' r' sd' limit' (initial_state v) = Inr f" for E' :: "'a crawl_env" and r' sd' limit' v f
  proof -
    have r: "reachable E' r' sd' limit' (initial_state v) f" and n: "\<not> loop_guard f"
      using crawl_loop_final[OF that] by simp_all
    have "length (pages f) \<le> MAX_PAGES" using reachable_pages[OF r init] .
    then show ?thesis using n by (auto simp: loop_guard_def)
  qed
  have c: "crawl_POST E payload_url maxDepth = CrawlOk site ps \<longrightarrow> length ps \<le> MAX_PAGES"
  proof
    assume p: "crawl_POST E payload_url maxDepth = CrawlOk site ps"
    from crawl_POST_pages[OF p] obtain v r f
      where f: "crawl_loop E r site (depthLimit maxDepth) (initial_state v) = Inr f"
        and ps: "ps = pages f"
      by blast
    show "length ps \<le> MAX_PAGES" using b[OF f] ps by simp
  qed
  have d: "crawl_loop E rootUrl sd limit (initial_state u) = Inr fin
        \<longrightarrow> length (pages fin) \<le> MAX_PAGES \<and> (queue fin = [] \<or> length (pages fin) = MAX_PAGES)"
    using b[of E rootUrl sd limit u fin] by (rule impI)
  have e: "MAX_PAGES = 120" by (simp add: MAX_PAGES_def)
  from a d c e show ?thesis by (intro conjI)
qed

lemma depthLimit_range: "1 \<le> depthLimit maxDepth \<and> depthLimit maxDepth \<le> 4"
proof (cases maxDepth)
  case None
  then show ?thesis by (simp add: depthLimit_def depthSetting_def MAX_DEPTH_def)
next
  case (Some v)
  then show ?thesis by (cases v) (simp_all add: depthLimit_def depthSetting_def MAX_DEPTH_def)
qed

lemma reachable_depths:
  assumes "reachable E rootUrl sd limit st0 st" and "limit \<in> \<int>"
    and "\<forall>it\<in>set (queue st0). of_nat (depth it) \<le> limit"
  shows "\<forall>it\<in>set (queue st). of_nat (depth it) \<le> limit"
  using assms
proof (induction rule: reachable.induct)
  case start
  then show ?case by simp
next
  case (step st st')
  obtain cur rest where q: "queue st = cur # rest"
    using step.hyps(2) by (cases "queue st") (auto simp: loop_guard_def)
  obtain kids where k: "queue st' = rest @ kids"
    and d: "\<forall>k\<in>set kids. depth k = depth cur + 1"
    and l: "kids \<noteq> [] \<longrightarrow> of_nat (depth cur) < limit"
    using crawl_step_queue[OF step.hyps(3) q] by blast
  obtain z :: int where z: "limit = of_int z"
    using step.prems(1) by (auto elim: Ints_cases)
  have "of_nat (depth x) \<le> limit" if "x \<in> set kids" for x
  proof -
    have "of_nat (depth cur) < limit" using l that by auto
    then have "int (depth cur) < z" using z by (simp add: of_nat_less_of_int_iff)
    then have "int (depth cur + 1) \<le> z" by simp
    then have "(of_int (int (depth cur + 1)) :: rat) \<le> of_int z" by (simp only: of_int_le_iff)
    then show ?thesis using d that z by simp
  qed
  then show ?case using step.IH step.prems q k by auto
qed

lemma fetch_target_head:
  assumes "fetch_target E rootUrl st = Some (it, n)"
  shows "it \<in> set (queue st)"
  using assms
  by (auto simp: fetch_target_def split: list.splits sum.splits option.splits if_splits)

text \<open>
  C3, amended. The bound is the clamped limit, not the requested \<open>maxDepth\<close>: when the
  clamped limit is a whole number, every item in the queue of every reachable state has a
  depth of at most that limit, so has every item that is fetched; a pass for an item of
  depth \<open>d\<close> appends only items of depth \<open>d + 1\<close> and appends any only when \<open>d\<close> is below the
  limit; and the limit lies between 1 and 4.
\<close>

theorem depth_bound:
  assumes "limit = depthLimit maxDepth" and "limit \<in> \<int>"
    and "reachable E rootUrl sd limit (initial_state u) st"
  shows "(\<forall>it\<in>set (queue st). of_nat (depth it) \<le> limit)
       \<and> (\<forall>it n. fetch_target E rootUrl st = Some (it, n) \<longrightarrow> of_nat (depth it) \<le> limit)
       \<and> (\<forall>cur rest st'. queue st = cur # rest \<and> crawl_step E rootUrl sd limit st = Inr st'
            \<longrightarrow> (\<exists>kids. queue st' = rest @ kids
                   \<and> (\<forall>k\<in>set kids. depth k = depth cur + 1)
                   \<and> (kids \<noteq> [] \<longrightarrow> of_nat (depth cur) < limit)))
       \<and> 1 \<le> limit \<and> limit \<le> 4"
proof -
  have r: "1 \<le> limit \<and> limit \<le> 4" using assms(1) depthLimit_range by simp
  have i: "\<forall>it\<in>set (queue (initial_state u)). of_nat (depth it) \<le> limit"
    using r by (simp add: initial_state_def)
  have a: "\<forall>it\<in>set (queue st). of_nat (depth it) \<le> limit"
    using reachable_depths[OF assms(3) assms(2) i] .
  have b: "\<forall>it n. fetch_target E rootUrl st = Some (it, n) \<longrightarrow> of_nat (depth it) \<le> limit"
  proof (intro allI impI)
    fix it n
    assume f: "fetch_target E rootUrl st = Some (it, n)"
    show "of_nat (depth it) \<le> limit" using fetch_target_head[OF f] a by simp
  qed
  have c: "\<forall>cur rest st'. queue st = cur # rest \<and> crawl_step E rootUrl sd limit st = Inr st'
            \<longrightarrow> (\<exists>kids. queue st' = rest @ kids
                   \<and> (\<forall>k\<in>set kids. depth k = depth cur + 1)
                   \<and> (kids \<noteq> [] \<longrightarrow> of_nat (depth cur) < limit))"
  proof (intro allI impI)
    fix cur rest st'
    assume h: "queue st = cur # rest \<and> crawl_step E rootUrl sd limit st = Inr st'"
    show "\<exists>kids. queue st' = rest @ kids
                   \<and> (\<forall>k\<in>set kids. depth k = depth cur + 1)
                   \<and> (kids \<noteq> [] \<longrightarrow> of_nat (depth cur) < limit)"
      using crawl_step_queue[of E rootUrl sd limit st st' cur rest] h by simp
  qed
  from a b c r show ?thesis by (intro conjI) simp_all
qed

lemma reachable_recorded:
  assumes "reachable E rootUrl sd limit st0 st" and "recorded_inv st0"
  shows "recorded_inv st \<and> recorded st0 \<subseteq> recorded st"
  using assms
proof (induction rule: reachable.induct)
  case start
  then show ?case by simp
next
  case (step st st')
  then show ?case using crawl_step_recorded[of E rootUrl sd limit st st'] by blast
qed

lemma filter_distinct_one:
  "distinct (map f xs) \<Longrightarrow> c \<in> f ` set xs \<Longrightarrow> length (filter (\<lambda>p. f p = c) xs) = 1"
proof (induction xs)
  case Nil
  then show ?case by simp
next
  case (Cons x xs)
  show ?case
  proof (cases "f x = c")
    case True
    then have "\<forall>p\<in>set xs. f p \<noteq> c" using Cons.prems(1) by (auto simp: image_iff)
    then have "filter (\<lambda>p. f p = c) xs = []" by (simp add: filter_empty_conv)
    then show ?thesis using True by simp
  next
    case False
    then show ?thesis using Cons by auto
  qed
qed

lemma visit_new_page:
  assumes "visit E rootUrl sd limit cur st = Inr st'" and "e \<in> set (pages st')"
  shows "e \<in> set (pages st) \<or> passes_canonical_checks E rootUrl (url e)"
  using assms
  by (auto simp: visit_def Let_def passes_canonical_checks_def
      split: sum.splits option.splits if_splits)

lemma visit_checked:
  assumes "visit E rootUrl sd limit cur st = Inr st'" and "checked_inv E rootUrl st"
  shows "checked_inv E rootUrl st'"
  using visit_new_page[OF assms(1)] assms(2) by (auto simp: checked_inv_def list_all_iff)

lemma crawl_step_checked:
  assumes "crawl_step E rootUrl sd limit st = Inr st'" and "checked_inv E rootUrl st"
  shows "checked_inv E rootUrl st'"
proof (cases "queue st")
  case Nil
  then show ?thesis using assms by (simp add: crawl_step_def)
next
  case (Cons cur rest)
  have "checked_inv E rootUrl (st\<lparr>queue := rest\<rparr>)" using assms(2) by (simp add: checked_inv_def)
  then show ?thesis
    using assms(1) Cons visit_checked[of E rootUrl sd limit cur "st\<lparr>queue := rest\<rparr>" st']
    by (simp add: crawl_step_def)
qed

lemma reachable_checked:
  assumes "reachable E rootUrl sd limit st0 st" and "checked_inv E rootUrl st0"
  shows "checked_inv E rootUrl st"
  using assms
proof (induction rule: reachable.induct)
  case start
  then show ?case by simp
next
  case (step st st')
  then show ?case using crawl_step_checked[of E rootUrl sd limit st st'] by blast
qed

lemma accepted_passes:
  assumes "accepted_canonical E rootUrl st = Some c"
  shows "passes_canonical_checks E rootUrl c"
  using assms
  by (auto simp: accepted_canonical_def passes_canonical_checks_def
      split: sum.splits option.splits if_splits prod.splits)

text \<open>
  C4, amended. For every crawl that returns: no two records share a \<open>url\<close>; whenever a
  pass of the loop fetches a dequeued URL and reaches the recording step with canonical URL
  \<open>c\<close> (which then is on the root's host, with a path neither blocked nor disallowed), the
  returned pages hold exactly one record whose \<open>url\<close> is \<open>c\<close>, however many dequeued URLs
  have that canonical; and a URL that fails those checks has no record at all.
\<close>

theorem one_record_per_canonical:
  assumes "crawl_loop E rootUrl sd limit (initial_state u) = Inr fin"
  shows "distinct (map url (pages fin))
       \<and> (\<forall>st c. reachable E rootUrl sd limit (initial_state u) st \<and> loop_guard st
                 \<and> accepted_canonical E rootUrl st = Some c
              \<longrightarrow> passes_canonical_checks E rootUrl c
                  \<and> length (filter (\<lambda>p. url p = c) (pages fin)) = 1)
       \<and> (\<forall>d. \<not> passes_canonical_checks E rootUrl d
              \<longrightarrow> filter (\<lambda>p. url p = d) (pages fin) = [])"
proof -
  have i0: "recorded_inv (initial_state u)"
    by (simp add: recorded_inv_def initial_state_def)
  have rf: "reachable E rootUrl sd limit (initial_state u) fin"
    using crawl_loop_final[OF assms] by simp
  have d: "distinct (map url (pages fin))"
    using reachable_recorded[OF rf i0] by (simp add: recorded_inv_def)
  have one: "passes_canonical_checks E rootUrl c
             \<and> length (filter (\<lambda>p. url p = c) (pages fin)) = 1"
    if r: "reachable E rootUrl sd limit (initial_state u) st" and g: "loop_guard st"
      and a: "accepted_canonical E rootUrl st = Some c" for st c
  proof -
    have i1: "recorded_inv st" using reachable_recorded[OF r i0] by simp
    have "crawl_loop E rootUrl sd limit st = Inr fin"
      using reachable_loop_eq[OF r] assms by simp
    then obtain st' where s: "crawl_step E rootUrl sd limit st = Inr st'"
      and l: "crawl_loop E rootUrl sd limit st' = Inr fin"
      using crawl_loop_continue[OF g, of E rootUrl sd limit] by (auto split: sum.splits)
    have i2: "recorded_inv st'" using crawl_step_recorded[OF s i1] by simp
    have c2: "c \<in> recorded st'" by (rule crawl_step_accepted[OF s a])
    have r': "reachable E rootUrl sd limit st' fin" using crawl_loop_final[OF l] by simp
    have i3: "recorded_inv fin" and sub: "recorded st' \<subseteq> recorded fin"
      using reachable_recorded[OF r' i2] by simp_all
    have m: "c \<in> url ` set (pages fin)"
      using i3 sub c2 by (auto simp: recorded_inv_def)
    have "length (filter (\<lambda>p. url p = c) (pages fin)) = 1"
      using filter_distinct_one[OF d m] .
    then show ?thesis using accepted_passes[OF a] by simp
  qed
  have c0: "checked_inv E rootUrl (initial_state u)"
    by (simp add: checked_inv_def initial_state_def)
  have cf: "checked_inv E rootUrl fin" using reachable_checked[OF rf c0] .
  have none: "filter (\<lambda>p. url p = d) (pages fin) = []"
    if "\<not> passes_canonical_checks E rootUrl d" for d
    using cf that by (auto simp: checked_inv_def list_all_iff filter_empty_conv)
  show ?thesis
  proof (intro conjI allI impI)
    show "distinct (map url (pages fin))" by (rule d)
  next
    fix st c
    assume h: "reachable E rootUrl sd limit (initial_state u) st \<and> loop_guard st
                 \<and> accepted_canonical E rootUrl st = Some c"
    show "passes_canonical_checks E rootUrl c" using one[of st c] h by simp
    show "length (filter (\<lambda>p. url p = c) (pages fin)) = 1" using one[of st c] h by simp
  next
    fix d
    assume "\<not> passes_canonical_checks E rootUrl d"
    then show "filter (\<lambda>p. url p = d) (pages fin) = []" by (rule none)
  qed
qed

subsection \<open>The crawl of the two example sites\<close>

definition u_at :: "string \<Rightarrow> simple_url" where
  "u_at p = \<lparr>s_protocol = ''https:'', s_host = ''example.com'', s_path = p, s_search = [], s_hash = []\<rparr>"

lemma norm_facts:
  "normalizeUrl simple_urls ''https://example.com/'' None = Inr ''https://example.com/''"
  "normalizeUrl simple_urls ''https://example.com/a'' None = Inr ''https://example.com/a''"
  "normalizeUrl simple_urls ''https://example.com/b'' None = Inr ''https://example.com/b''"
  "normalizeUrl simple_urls ''https://example.com/c'' None = Inr ''https://example.com/c''"
  "normalizeUrl simple_urls ''https://example.com/login'' None = Inr ''https://example.com/login''"
  "normalizeUrl simple_urls [] None = Inl ''Unable to normalize URL: ''"
  "normalizeUrl simple_urls ''/a'' (Some ''https://example.com/'') = Inr ''https://example.com/a''"
  "normalizeUrl simple_urls ''/b'' (Some ''https://example.com/'') = Inr ''https://example.com/b''"
  by code_simp+

lemma url_facts:
  "new_URL simple_urls ''https://example.com/'' = Some (u_at ''/'')"
  "new_URL simple_urls ''https://example.com/a'' = Some (u_at ''/a'')"
  "new_URL simple_urls ''https://example.com/b'' = Some (u_at ''/b'')"
  "new_URL simple_urls ''https://example.com/c'' = Some (u_at ''/c'')"
  "new_URL simple_urls ''https://example.com/login'' = Some (u_at ''/login'')"
  "href simple_urls (u_at ''/'') = ''https://example.com/''"
  "href simple_urls (u_at ''/a'') = ''https://example.com/a''"
  "href simple_urls (u_at ''/b'') = ''https://example.com/b''"
  "pathname simple_urls (u_at p) = p"
  "hostname simple_urls (u_at p) = ''example.com''"
  by code_simp+

lemma host_facts:
  "isSameHost simple_urls (u_at p) (u_at q)"
  by (simp add: isSameHost_def url_facts)

lemma blocked_facts:
  "\<not> isBlockedPath simple_urls (u_at ''/'')"
  "\<not> isBlockedPath simple_urls (u_at ''/a'')"
  "\<not> isBlockedPath simple_urls (u_at ''/b'')"
  "\<not> isBlockedPath simple_urls (u_at ''/c'')"
  "isBlockedPath simple_urls (u_at ''/login'')"
  by code_simp+

lemma infer_facts:
  "inferType simple_urls (u_at ''/'') d = homepage"
  "inferType simple_urls (u_at ''/c'') (plain_doc\<lparr>canonical_href := x\<rparr>) = category"
  "buildAiUrl simple_urls (u_at ''/'') ''example.com'' = ''https://ai.example.com/''"
  "buildAiUrl simple_urls (u_at ''/c'') ''example.com'' = ''https://ai.example.com/c''"
  "strip_www ''example.com'' = ''example.com''"
  by code_simp+


lemma fetch_facts:
  "fetch simple_urls (net (shared_canonical_site c)) ''https://example.com/''
     = html_page ''home'' ''https://example.com/''"
  "fetch simple_urls (net (shared_canonical_site c)) ''https://example.com/a''
     = html_page ''a'' ''https://example.com/a''"
  "fetch simple_urls (net (shared_canonical_site c)) ''https://example.com/b''
     = html_page ''b'' ''https://example.com/b''"
  "fetch simple_urls (net empty_canonical_site) ''https://example.com/''
     = html_page ''home'' ''https://example.com/''"
  by (simp_all add: fetch_def url_facts shared_canonical_site_def empty_canonical_site_def)

lemma extractLinks_home: "extractLinks [''/a'', ''/b''] = [''/a'', ''/b'']" "extractLinks [] = []"
  by code_simp+

lemma trim_facts:
  "trim [] = []" "trim ''https://example.com/c'' = ''https://example.com/c''"
  "trim ''https://example.com/login'' = ''https://example.com/login''"
  "trim ''https://example.com/'' = ''https://example.com/''"
  by code_simp+

lemma site_facts:
  "urls (shared_canonical_site c) = simple_urls"
  "robots_allows (shared_canonical_site c) p"
  "dom (shared_canonical_site c) ''home'' = plain_doc\<lparr>anchors := [''/a'', ''/b'']\<rparr>"
  "dom (shared_canonical_site c) ''a'' = plain_doc\<lparr>canonical_href := Some c\<rparr>"
  "dom (shared_canonical_site c) ''b'' = plain_doc\<lparr>canonical_href := Some c\<rparr>"
  "urls empty_canonical_site = simple_urls"
  "robots_allows empty_canonical_site p"
  "dom empty_canonical_site h = plain_doc\<lparr>canonical_href := Some []\<rparr>"
  by (simp_all add: shared_canonical_site_def empty_canonical_site_def)

lemma fetchPage_facts:
  "fetchPage (shared_canonical_site c) ''https://example.com/''
     = Some \<lparr>finalUrl = ''https://example.com/'', canonical = None,
             document = plain_doc\<lparr>anchors := [''/a'', ''/b'']\<rparr>, links = [''/a'', ''/b'']\<rparr>"
  "fetchPage (shared_canonical_site c) ''https://example.com/a''
     = Some \<lparr>finalUrl = ''https://example.com/a'', canonical = Some (trim c),
             document = plain_doc\<lparr>canonical_href := Some c\<rparr>, links = []\<rparr>"
  "fetchPage (shared_canonical_site c) ''https://example.com/b''
     = Some \<lparr>finalUrl = ''https://example.com/b'', canonical = Some (trim c),
             document = plain_doc\<lparr>canonical_href := Some c\<rparr>, links = []\<rparr>"
  "fetchPage empty_canonical_site ''https://example.com/''
     = Some \<lparr>finalUrl = ''https://example.com/'', canonical = Some [],
             document = plain_doc\<lparr>canonical_href := Some []\<rparr>, links = []\<rparr>"
  by (simp_all add: fetchPage_def site_facts fetch_facts html_page_def response_ok_def
      header_or_empty_def MAX_DOCUMENT_BYTES_def collectCanonical_def extractLinks_home
      plain_doc_def trim_facts)


definition home_entry :: PageEntry where
  "home_entry = \<lparr>url = ''https://example.com/'', ai_url = ''https://ai.example.com/'',
                  page_type = homepage, priority = 1\<rparr>"

definition c_entry :: PageEntry where
  "c_entry = \<lparr>url = ''https://example.com/c'', ai_url = ''https://ai.example.com/c'',
               page_type = category, priority = 5 / 10\<rparr>"

definition after_home :: crawl_state where
  "after_home =
     \<lparr>queue = [\<lparr>item_url = ''https://example.com/a'', depth = 1\<rparr>,
               \<lparr>item_url = ''https://example.com/b'', depth = 1\<rparr>],
      visited = {''https://example.com/''}, recorded = {''https://example.com/''},
      pages = [home_entry]\<rparr>"

lemma step_home:
  assumes "0 < limit"
  shows "crawl_step (shared_canonical_site c) (u_at ''/'') ''example.com'' limit
           (initial_state ''https://example.com/'') = Inr after_home"
  using assms
  by (simp add: crawl_step_def visit_def Let_def initial_state_def site_facts norm_facts url_facts
      host_facts blocked_facts fetchPage_facts infer_facts link_item_def map_filter_def
      after_home_def home_entry_def)

definition after_a :: "PageEntry list \<Rightarrow> string set \<Rightarrow> crawl_state" where
  "after_a ps rs =
     \<lparr>queue = [\<lparr>item_url = ''https://example.com/b'', depth = 1\<rparr>],
      visited = {''https://example.com/a'', ''https://example.com/''}, recorded = rs,
      pages = ps\<rparr>"

definition after_b :: "PageEntry list \<Rightarrow> string set \<Rightarrow> crawl_state" where
  "after_b ps rs =
     \<lparr>queue = [],
      visited = {''https://example.com/b'', ''https://example.com/a'', ''https://example.com/''},
      recorded = rs, pages = ps\<rparr>"

lemma step_a_ok:
  "crawl_step (shared_canonical_site ''https://example.com/c'') (u_at ''/'') ''example.com'' limit
       after_home
   = Inr (after_a [home_entry, c_entry] {''https://example.com/c'', ''https://example.com/''})"
  by (simp add: crawl_step_def visit_def Let_def site_facts norm_facts url_facts trim_facts
      host_facts blocked_facts fetchPage_facts infer_facts map_filter_def
      after_home_def after_a_def home_entry_def c_entry_def)

lemma step_b_ok:
  "crawl_step (shared_canonical_site ''https://example.com/c'') (u_at ''/'') ''example.com'' limit
       (after_a [home_entry, c_entry] {''https://example.com/c'', ''https://example.com/''})
   = Inr (after_b [home_entry, c_entry] {''https://example.com/c'', ''https://example.com/''})"
  by (simp add: crawl_step_def visit_def Let_def site_facts norm_facts url_facts trim_facts
      host_facts blocked_facts fetchPage_facts infer_facts map_filter_def
      after_b_def after_a_def home_entry_def c_entry_def)

lemma step_a_login:
  "crawl_step (shared_canonical_site ''https://example.com/login'') (u_at ''/'') ''example.com'' limit
       after_home
   = Inr (after_a [home_entry] {''https://example.com/''})"
  by (simp add: crawl_step_def visit_def Let_def site_facts norm_facts url_facts trim_facts
      host_facts blocked_facts fetchPage_facts infer_facts map_filter_def
      after_home_def after_a_def home_entry_def c_entry_def)

lemma step_b_login:
  "crawl_step (shared_canonical_site ''https://example.com/login'') (u_at ''/'') ''example.com'' limit
       (after_a [home_entry] {''https://example.com/''})
   = Inr (after_b [home_entry] {''https://example.com/''})"
  by (simp add: crawl_step_def visit_def Let_def site_facts norm_facts url_facts trim_facts
      host_facts blocked_facts fetchPage_facts infer_facts map_filter_def
      after_b_def after_a_def home_entry_def c_entry_def)

lemma guards:
  "loop_guard (initial_state u)" "loop_guard after_home" "loop_guard (after_a [home_entry, c_entry] rs)"
  "loop_guard (after_a [home_entry] rs)" "\<not> loop_guard (after_b ps rs)"
  by (simp_all add: loop_guard_def initial_state_def after_home_def after_a_def after_b_def MAX_PAGES_def)

lemma loop_ok:
  assumes "0 < limit"
  shows "crawl_loop (shared_canonical_site ''https://example.com/c'') (u_at ''/'') ''example.com'' limit
           (initial_state ''https://example.com/'')
         = Inr (after_b [home_entry, c_entry] {''https://example.com/c'', ''https://example.com/''})"
  by (simp add: crawl_loop_continue guards step_home[OF assms] step_a_ok step_b_ok crawl_loop_stop)

lemma loop_login:
  assumes "0 < limit"
  shows "crawl_loop (shared_canonical_site ''https://example.com/login'') (u_at ''/'') ''example.com'' limit
           (initial_state ''https://example.com/'')
         = Inr (after_b [home_entry] {''https://example.com/''})"
  by (simp add: crawl_loop_continue guards step_home[OF assms] step_a_login step_b_login crawl_loop_stop)

lemma step_empty_canonical:
  "crawl_step empty_canonical_site (u_at ''/'') ''example.com'' limit
           (initial_state ''https://example.com/'') = Inl ''Unable to normalize URL: ''"
  by (simp add: crawl_step_def visit_def Let_def initial_state_def site_facts norm_facts url_facts
      host_facts blocked_facts fetchPage_facts)


lemma reach_after_home:
  assumes "0 < limit"
  shows "reachable (shared_canonical_site c) (u_at ''/'') ''example.com'' limit
           (initial_state ''https://example.com/'') after_home"
  using reachable.step[OF reachable.start guards(1) step_home[OF assms]] .

lemma reach_after_a:
  assumes "0 < limit"
  shows "reachable (shared_canonical_site ''https://example.com/c'') (u_at ''/'') ''example.com'' limit
           (initial_state ''https://example.com/'')
           (after_a [home_entry, c_entry] {''https://example.com/c'', ''https://example.com/''})"
  using reachable.step[OF reach_after_home[OF assms] guards(2) step_a_ok] .

lemma accepted_facts:
  "accepted_canonical (shared_canonical_site ''https://example.com/c'') (u_at ''/'') after_home
     = Some ''https://example.com/c''"
  "accepted_canonical (shared_canonical_site ''https://example.com/c'') (u_at ''/'')
       (after_a [home_entry, c_entry] {''https://example.com/c'', ''https://example.com/''})
     = Some ''https://example.com/c''"
  by (simp_all add: accepted_canonical_def fetch_target_def after_home_def after_a_def
      site_facts norm_facts url_facts trim_facts host_facts blocked_facts fetchPage_facts)

lemma login_rejected:
  "\<not> passes_canonical_checks (shared_canonical_site c) (u_at ''/'') ''https://example.com/login''"
  by (simp add: passes_canonical_checks_def site_facts url_facts host_facts blocked_facts)

text \<open>
  C1. A per-page failure that is not absorbed: the root URL parses, the home page is
  fetched, its \<open><link rel="canonical" href="">\<close> makes \<open>normalizeUrl\<close> throw outside the
  link loop's \<open>try\<close>, and the whole crawl answers with an error and status 400.
\<close>

theorem crawl_fails_on_empty_canonical:
  "normalizeUrl (urls empty_canonical_site) ''https://example.com/'' None
     = Inr ''https://example.com/''
   \<and> crawl_POST empty_canonical_site (Some ''https://example.com/'') None
     = CrawlError 400 ''Unable to normalize URL: ''"
  by (simp add: crawl_POST_def trim_facts site_facts norm_facts url_facts infer_facts
      crawl_loop_continue guards step_empty_canonical)

text \<open>
  The page budget on the second example site.
\<close>

theorem page_budget_witness:
  "reachable (shared_canonical_site ''https://example.com/c'') (u_at ''/'') ''example.com'' 3
     (initial_state ''https://example.com/'') after_home
   \<and> length (pages after_home) \<le> MAX_PAGES
   \<and> crawl_POST (shared_canonical_site ''https://example.com/c'') (Some ''https://example.com/'') None
       = CrawlOk ''example.com'' [home_entry, c_entry]
   \<and> length [home_entry, c_entry] \<le> MAX_PAGES"
proof -
  have r: "reachable (shared_canonical_site ''https://example.com/c'') (u_at ''/'') ''example.com'' 3
     (initial_state ''https://example.com/'') after_home"
    by (rule reach_after_home) simp
  have p: "crawl_POST (shared_canonical_site ''https://example.com/c'') (Some ''https://example.com/'') None
       = CrawlOk ''example.com'' [home_entry, c_entry]"
    by (simp add: crawl_POST_def trim_facts site_facts norm_facts url_facts infer_facts
        depthLimit_def depthSetting_def MAX_DEPTH_def loop_ok after_b_def)
  show ?thesis
    using page_budget[of "shared_canonical_site ''https://example.com/c''" "u_at ''/''"
        "''example.com''" 3 "''https://example.com/''" after_home
        "after_b [home_entry, c_entry] {''https://example.com/c'', ''https://example.com/''}"
        "Some ''https://example.com/''" None "''example.com''" "[home_entry, c_entry]"] r p
    by simp
qed

text \<open>
  The claim C3 as stated fails: with \<open>maxDepth = 0\<close> the crawl reaches a state whose
  queue holds items of depth 1.
\<close>

theorem depth_exceeds_requested_maxDepth:
  "depthSetting (Some (Fin 0)) = Fin 0
   \<and> reachable (shared_canonical_site ''https://example.com/c'') (u_at ''/'') ''example.com''
       (depthLimit (Some (Fin 0))) (initial_state ''https://example.com/'') after_home
   \<and> map depth (queue after_home) = [1, 1]"
proof -
  have l: "depthLimit (Some (Fin 0)) = 1"
    by (simp add: depthLimit_def depthSetting_def MAX_DEPTH_def)
  have "reachable (shared_canonical_site ''https://example.com/c'') (u_at ''/'') ''example.com''
       1 (initial_state ''https://example.com/'') after_home"
    by (rule reach_after_home) simp
  then show ?thesis by (simp add: l depthSetting_def after_home_def)
qed

text \<open>
  The clamped bound on the same crawl.
\<close>

theorem depth_bound_witness:
  "depthLimit (Some (Fin 0)) = 1
   \<and> reachable (shared_canonical_site ''https://example.com/c'') (u_at ''/'') ''example.com''
       (depthLimit (Some (Fin 0))) (initial_state ''https://example.com/'') after_home
   \<and> list_all (\<lambda>it. of_nat (depth it) \<le> depthLimit (Some (Fin 0))) (queue after_home)"
proof -
  have l: "depthLimit (Some (Fin 0)) = 1"
    by (simp add: depthLimit_def depthSetting_def MAX_DEPTH_def)
  have i: "depthLimit (Some (Fin 0)) \<in> \<int>" by (simp add: l)
  have r: "reachable (shared_canonical_site ''https://example.com/c'') (u_at ''/'') ''example.com''
       (depthLimit (Some (Fin 0))) (initial_state ''https://example.com/'') after_home"
    unfolding l by (rule reach_after_home) simp
  have "\<forall>it\<in>set (queue after_home). of_nat (depth it) \<le> depthLimit (Some (Fin 0))"
    using depth_bound[OF refl i r] by blast
  then show ?thesis using l r by (simp add: list_all_iff)
qed

text \<open>
  The claim C4 as stated fails: \<open>/a\<close> and \<open>/b\<close> are both dequeued and fetched and both
  declare the canonical URL \<open>https://example.com/login\<close>, whose path is blocked; the
  returned pages hold no record for it.
\<close>

theorem blocked_canonical_has_no_record:
  "map_option canonical (fetchPage (shared_canonical_site ''https://example.com/login'')
                           ''https://example.com/a'') = Some (Some ''https://example.com/login'')
   \<and> map_option canonical (fetchPage (shared_canonical_site ''https://example.com/login'')
                           ''https://example.com/b'') = Some (Some ''https://example.com/login'')
   \<and> normalizeUrl simple_urls ''https://example.com/login'' None = Inr ''https://example.com/login''
   \<and> crawl_POST (shared_canonical_site ''https://example.com/login'')
        (Some ''https://example.com/'') None = CrawlOk ''example.com'' [home_entry]
   \<and> filter (\<lambda>p. url p = ''https://example.com/login'') [home_entry] = []"
  by (simp add: crawl_POST_def trim_facts site_facts norm_facts url_facts infer_facts
      depthLimit_def depthSetting_def MAX_DEPTH_def loop_login after_b_def fetchPage_facts
      home_entry_def)

text \<open>
  On the second site both \<open>/a\<close> and \<open>/b\<close> reach the recording step with the canonical URL
  \<open>https://example.com/c\<close>, and the crawl returns one record for it. When both declare
  \<open>https://example.com/login\<close>, which fails the checks, the crawl returns no record for it.
\<close>

theorem one_record_per_canonical_witness:
  "accepted_canonical (shared_canonical_site ''https://example.com/c'') (u_at ''/'') after_home
     = Some ''https://example.com/c''
   \<and> accepted_canonical (shared_canonical_site ''https://example.com/c'') (u_at ''/'')
       (after_a [home_entry, c_entry] {''https://example.com/c'', ''https://example.com/''})
     = Some ''https://example.com/c''
   \<and> crawl_loop (shared_canonical_site ''https://example.com/c'') (u_at ''/'') ''example.com'' 3
         (initial_state ''https://example.com/'')
       = Inr (after_b [home_entry, c_entry] {''https://example.com/c'', ''https://example.com/''})
   \<and> length (filter (\<lambda>p. url p = ''https://example.com/c'') [home_entry, c_entry]) = 1
   \<and> \<not> passes_canonical_checks (shared_canonical_site ''https://example.com/login'') (u_at ''/'')
         ''https://example.com/login''
   \<and> crawl_loop (shared_canonical_site ''https://example.com/login'') (u_at ''/'') ''example.com'' 3
         (initial_state ''https://example.com/'')
       = Inr (after_b [home_entry] {''https://example.com/''})
   \<and> filter (\<lambda>p. url p = ''https://example.com/login'') [home_entry] = []"
proof -
  have l: "crawl_loop (shared_canonical_site ''https://example.com/c'') (u_at ''/'') ''example.com'' 3
         (initial_state ''https://example.com/'')
       = Inr (after_b [home_entry, c_entry] {''https://example.com/c'', ''https://example.com/''})"
    by (rule loop_ok) simp
  have r: "reachable (shared_canonical_site ''https://example.com/c'') (u_at ''/'') ''example.com'' 3
           (initial_state ''https://example.com/'')
           (after_a [home_entry, c_entry] {''https://example.com/c'', ''https://example.com/''})"
    by (rule reach_after_a) simp
  have "length (filter (\<lambda>p. url p = ''https://example.com/c'')
          (pages (after_b [home_entry, c_entry] {''https://example.com/c'', ''https://example.com/''}))) = 1"
    using one_record_per_canonical[OF l] r guards(3) accepted_facts(2) by blast
  then have a: "length (filter (\<lambda>p. url p = ''https://example.com/c'') [home_entry, c_entry]) = 1"
    by (simp add: after_b_def)
  have l2: "crawl_loop (shared_canonical_site ''https://example.com/login'') (u_at ''/'') ''example.com'' 3
         (initial_state ''https://example.com/'')
       = Inr (after_b [home_entry] {''https://example.com/''})"
    by (rule loop_login) simp
  have "filter (\<lambda>p. url p = ''https://example.com/login'')
          (pages (after_b [home_entry] {''https://example.com/''})) = []"
    using one_record_per_canonical[OF l2] login_rejected by blast
  then have b: "filter (\<lambda>p. url p = ''https://example.com/login'') [home_entry] = []"
    by (simp add: after_b_def)
  show ?thesis using l l2 a b accepted_facts login_rejected by (intro conjI)
qed

section \<open>Regular expressions of the Markdown sanitizer\<close>





text \<open>
  The choices of a backtracking matcher: the longest repetition first, then shorter ones
  down to the minimum; alternatives from left to right.
\<close>

fun first_count :: "(nat \<Rightarrow> 'a option) \<Rightarrow> nat \<Rightarrow> nat \<Rightarrow> 'a option" where
  "first_count f lo n =
     (if n < lo then None
      else case f n of
             Some r \<Rightarrow> Some r
           | None \<Rightarrow> if n = 0 then None else first_count f lo (n - 1))"

declare first_count.simps [simp del]

fun first_alt :: "('b \<Rightarrow> 'a option) \<Rightarrow> 'b list \<Rightarrow> 'a option" where
  "first_alt f [] = None"
| "first_alt f (w # ws) = (case f w of Some r \<Rightarrow> Some r | None \<Rightarrow> first_alt f ws)"

lemma first_count_ext:
  "(\<And>m. m \<le> n \<Longrightarrow> f m = g m) \<Longrightarrow> first_count f lo n = first_count g lo n"
proof (induction n)
  case 0
  then show ?case by (simp add: first_count.simps)
next
  case (Suc n)
  have ih: "first_count f lo n = first_count g lo n" using Suc by simp
  have fg: "f (Suc n) = g (Suc n)" using Suc.prems by simp
  show ?case
    by (auto simp: first_count.simps[of f lo "Suc n"] first_count.simps[of g lo "Suc n"] ih fg
        split: option.splits)
qed

lemma first_count_cong [fundef_cong]:
  "lo = lo' \<Longrightarrow> n = n' \<Longrightarrow> (\<And>m. m \<le> n' \<Longrightarrow> f m = g m)
   \<Longrightarrow> first_count f lo n = first_count g lo' n'"
  using first_count_ext[of n' f g lo'] by simp

lemma first_alt_cong [fundef_cong]:
  "ws = ws' \<Longrightarrow> (\<And>w. w \<in> set ws' \<Longrightarrow> f w = g w) \<Longrightarrow> first_alt f ws = first_alt g ws'"
  by (induction ws arbitrary: ws') (auto split: option.splits)









section \<open>The Markdown sanitizer\<close>














subsection \<open>Replacing the long runs of one character class\<close>


















subsection \<open>Texts without a match\<close>











subsection \<open>A separator made by the footer pass\<close>












subsection \<open>The noise pass replaces one match per phrase\<close>









subsection \<open>More texts run through the passes\<close>











subsection \<open>The sanitizer applied to its own output\<close>



end
